theory Spec2Isabelle
  imports Main "HOL-Library.Sublist"
begin

chapter \<open>The multi-provider AI gateway of src/ai/ai.ts\<close>

text \<open>
  A shallow embedding of the gateway functions of \<^verbatim>\<open>src/ai/ai.ts\<close>: the retrying HTTP
  client, the authentication attempts, the compat resolver with its catalog, the
  conversation history store, the message splitter, the Gemini version fallback and the
  debounced persistence. Network calls, the clock, the random jitter and the lowering of
  strings are parameters of the functions that use them. All definitions come first;
  the theorems follow.
\<close>

section \<open>Definitions\<close>

subsection \<open>JavaScript strings and objects\<close>

text \<open>
  A string is a list of characters. \<open>toLowerCase\<close> lowers the letters A to Z and leaves
  every other character as it is: on a text whose capital letters are all among A to Z
  it is the \<^verbatim>\<open>toLowerCase\<close> of the source. It is used where the lowered text is
  searched for vendor domains, and as the lowering function of the examples. The
  functions whose result can depend on the lowering of another letter (the keys of
  \<^verbatim>\<open>modelCompat\<close>, of the catalog and of the providers, the patterns of
  \<^verbatim>\<open>detectCompat\<close> and of \<^verbatim>\<open>isRouteError\<close>, the field names of the configuration
  command) take the lowering function as their parameter \<open>lc\<close>, so that what is proved
  of them holds for the \<^verbatim>\<open>toLowerCase\<close> of the source on every text.
\<close>

definition lower_char :: "char \<Rightarrow> char" where
  "lower_char c =
     (case map_of (zip ''ABCDEFGHIJKLMNOPQRSTUVWXYZ'' ''abcdefghijklmnopqrstuvwxyz'') c of
        Some d \<Rightarrow> d
      | None \<Rightarrow> c)"

definition toLowerCase :: "string \<Rightarrow> string" where
  "toLowerCase s = map lower_char s"

text \<open>\<^verbatim>\<open>s.includes(pat)\<close>\<close>

fun str_includes :: "string \<Rightarrow> string \<Rightarrow> bool" where
  "str_includes [] pat = (pat = [])"
| "str_includes (c # cs) pat = (prefix pat (c # cs) \<or> str_includes cs pat)"

text \<open>
  An optional string field is \<open>None\<close> when it is \<^verbatim>\<open>undefined\<close>. \<^verbatim>\<open>x || d\<close> takes
  \<open>d\<close> when \<open>x\<close> is undefined or the empty string.
\<close>

definition truthy :: "string option \<Rightarrow> bool" where
  "truthy x = (case x of None \<Rightarrow> False | Some s \<Rightarrow> s \<noteq> [])"

definition or_else :: "string option \<Rightarrow> string \<Rightarrow> string" where
  "or_else x d = (case x of None \<Rightarrow> d | Some s \<Rightarrow> if s = [] then d else s)"

text \<open>
  An object with string keys is the list of its entries in the order in which
  \<^verbatim>\<open>Object.keys\<close>, \<^verbatim>\<open>Object.entries\<close>, the spread syntax and \<^verbatim>\<open>JSON.stringify\<close>
  enumerate them: first the keys that are array indices (canonical decimal numerals below
  \<open>2^32 - 1\<close>) in ascending numeric order, then the other keys in the order of their
  creation. Chat identifiers, the keys of the history store, are such numerals.
\<close>

type_synonym 'v obj = "(string \<times> 'v) list"

definition is_digit :: "char \<Rightarrow> bool" where
  "is_digit c = (48 \<le> (of_char c :: nat) \<and> (of_char c :: nat) \<le> 57)"

definition dec_value :: "string \<Rightarrow> nat" where
  "dec_value k = foldl (\<lambda>n c. 10 * n + ((of_char c :: nat) - 48)) 0 k"

definition is_array_index :: "string \<Rightarrow> bool" where
  "is_array_index k =
     (k \<noteq> [] \<and> list_all is_digit k \<and> (k = ''0'' \<or> hd k \<noteq> CHR ''0'') \<and>
      dec_value k < 4294967295)"

definition obj_get :: "'v obj \<Rightarrow> string \<Rightarrow> 'v option" where
  "obj_get ob k = map_of ob k"

text \<open>
  A read \<^verbatim>\<open>ob[k]\<close> of a plain object finds the own entry of the key, and where there
  is none, the property that every object inherits from \<^verbatim>\<open>Object.prototype\<close> under
  one of the names \<open>proto_keys\<close>: a function or an object, truthy, defined, and equal
  to no family name. \<open>obj_get\<close> above reads own entries only; it is used for the
  history store, whose keys are chat identifiers.
\<close>

datatype 'v lookup = Missing | Own 'v | Inherited

definition proto_keys :: "string list" where
  "proto_keys =
     [''constructor'', ''__defineGetter__'', ''__defineSetter__'', ''hasOwnProperty'',
      ''__lookupGetter__'', ''__lookupSetter__'', ''isPrototypeOf'', ''propertyIsEnumerable'',
      ''toString'', ''valueOf'', ''__proto__'', ''toLocaleString'']"

definition js_lookup :: "'v obj \<Rightarrow> string \<Rightarrow> 'v lookup" where
  "js_lookup ob k =
     (case map_of ob k of
        Some v \<Rightarrow> Own v
      | None \<Rightarrow> if k \<in> set proto_keys then Inherited else Missing)"

definition obj_keys :: "'v obj \<Rightarrow> string list" where
  "obj_keys ob = map fst ob"

fun obj_insert_index :: "string \<Rightarrow> 'v \<Rightarrow> 'v obj \<Rightarrow> 'v obj" where
  "obj_insert_index k v [] = [(k, v)]"
| "obj_insert_index k v ((k', v') # rest) =
     (if is_array_index k' \<and> dec_value k' < dec_value k
      then (k', v') # obj_insert_index k v rest
      else (k, v) # (k', v') # rest)"

text \<open>The entry that \<^verbatim>\<open>ob[k] = v\<close> writes: an existing key keeps its place.\<close>

definition obj_set :: "string \<Rightarrow> 'v \<Rightarrow> 'v obj \<Rightarrow> 'v obj" where
  "obj_set k v ob =
     (if map_of ob k \<noteq> None then map (\<lambda>(k', v'). if k' = k then (k', v) else (k', v')) ob
      else if is_array_index k then obj_insert_index k v ob
      else ob @ [(k, v)])"

text \<open>
  The assignment \<^verbatim>\<open>ob[k] = v\<close> as the source writes it. Under the key
  \<^verbatim>\<open>__proto__\<close>, when the object has no own entry of that name (one can come from
  \<^verbatim>\<open>JSON.parse\<close> only), the assignment goes to the setter of \<^verbatim>\<open>Object.prototype\<close>
  and creates no entry: a text is dropped there, and an object becomes the prototype of
  \<open>ob\<close>, which only \<^verbatim>\<open>ai config add __proto__\<close> brings about (the model keeps the
  entries and does not follow a changed prototype).
\<close>

definition js_assign :: "string \<Rightarrow> 'v \<Rightarrow> 'v obj \<Rightarrow> 'v obj" where
  "js_assign k v ob = (if k = ''__proto__'' \<and> map_of ob k = None then ob else obj_set k v ob)"

text \<open>\<^verbatim>\<open>delete ob[k]\<close>\<close>

definition obj_delete :: "string \<Rightarrow> 'v obj \<Rightarrow> 'v obj" where
  "obj_delete k ob = filter (\<lambda>(k', v'). k' \<noteq> k) ob"

text \<open>\<^verbatim>\<open>{ ...a, ...b }\<close>\<close>

definition obj_spread :: "'v obj \<Rightarrow> 'v obj \<Rightarrow> 'v obj" where
  "obj_spread a b = foldl (\<lambda>ob (k, v). obj_set k v ob) [] (a @ b)"

text \<open>
  \<^verbatim>\<open>Buffer.from(s).toString('base64')\<close> on the bytes of \<open>s\<close>.
\<close>

definition b64_char :: "nat \<Rightarrow> char" where
  "b64_char n = ''ABCDEFGHIJKLMNOPQRSTUVWXYZabcdefghijklmnopqrstuvwxyz0123456789+/'' ! (n mod 64)"

fun base64_bytes :: "nat list \<Rightarrow> string" where
  "base64_bytes (a # b # c # rest) =
     (let n = a * 65536 + b * 256 + c in
      b64_char (n div 262144) # b64_char (n div 4096) # b64_char (n div 64) # b64_char n #
      base64_bytes rest)"
| "base64_bytes [a, b] =
     (let n = a * 65536 + b * 256 in
      [b64_char (n div 262144), b64_char (n div 4096), b64_char (n div 64), CHR ''=''])"
| "base64_bytes [a] =
     (let n = a * 65536 in [b64_char (n div 262144), b64_char (n div 4096), CHR ''='', CHR ''=''])"
| "base64_bytes [] = []"

definition base64 :: "string \<Rightarrow> string" where
  "base64 s = base64_bytes (map of_char s)"

subsection \<open>Errors of an HTTP call\<close>

text \<open>
  The fields of a thrown error that the source reads: \<^verbatim>\<open>err.response\<close> (absent on a
  network failure) with its \<^verbatim>\<open>status\<close> and \<^verbatim>\<open>data\<close>, \<^verbatim>\<open>err.code\<close>,
  \<^verbatim>\<open>err.isAxiosError\<close> and \<^verbatim>\<open>err.message\<close>. A response body is a text or a JSON
  value: \<open>BodyAbsent\<close> is \<^verbatim>\<open>undefined\<close> or \<^verbatim>\<open>null\<close> (and, for the body itself, any
  other falsy value but the empty text), \<open>BodyText\<close> a text, \<open>BodyObject\<close> a parsed
  object, \<open>BodyArray\<close> an array of such values, and \<open>BodyOther\<close> any other primitive
  (for the body itself a truthy one: a number other than zero, \<^verbatim>\<open>true\<close>), given by
  the text that \<^verbatim>\<open>String\<close> prints for it.
\<close>

datatype resp_body =
    BodyAbsent
  | BodyText string
  | BodyObject
  | BodyArray "resp_body list"
  | BodyOther string

record http_response =
  status :: int
  data :: resp_body

record js_error =
  response :: "http_response option"
  code :: "string option"
  isAxiosError :: bool
  message :: "string option"

text \<open>\<^verbatim>\<open>err?.response?.status\<close>\<close>

definition status_of :: "js_error \<Rightarrow> int option" where
  "status_of err = map_option status (response err)"

subsection \<open>The retrying HTTP client\<close>






subsection \<open>Providers and authentication attempts\<close>

datatype Compat = openai | gemini | claude

datatype AuthMethod = BEARER_TOKEN | API_KEY_HEADER | QUERY_PARAM | BASIC_AUTH | CUSTOM_HEADER

text \<open>The interface \<^verbatim>\<open>AuthConfig\<close>; its \<^verbatim>\<open>method\<close> and \<^verbatim>\<open>apiKey\<close> are the fields \<open>cfg_method\<close> and \<open>cfg_apiKey\<close>.\<close>

record AuthConfig =
  cfg_method :: AuthMethod
  cfg_apiKey :: string
  headerName :: "string option"
  paramName :: "string option"
  username :: "string option"
  password :: "string option"

record Provider =
  apiKey :: string
  baseUrl :: string
  compatauth :: "Compat option"
  authMethod :: "AuthMethod option"
  authConfig :: "AuthConfig option"

text \<open>One authentication attempt: the headers and the query parameters of a request.\<close>

record attempt =
  headers :: "string obj"
  params :: "string obj"

definition buildAuthHeaders :: "AuthConfig \<Rightarrow> string obj" where
  "buildAuthHeaders config =
     (case cfg_method config of
        BEARER_TOKEN \<Rightarrow> obj_set ''Authorization'' (''Bearer '' @ cfg_apiKey config) []
      | API_KEY_HEADER \<Rightarrow> obj_set (or_else (headerName config) ''X-API-Key'') (cfg_apiKey config) []
      | CUSTOM_HEADER \<Rightarrow>
          (if truthy (headerName config)
           then obj_set (or_else (headerName config) []) (cfg_apiKey config) []
           else [])
      | BASIC_AUTH \<Rightarrow>
          obj_set ''Authorization''
            (''Basic '' @ base64 (or_else (username config) (cfg_apiKey config) @ '':'' @
                                  or_else (password config) [])) []
      | QUERY_PARAM \<Rightarrow> [])"

definition buildAuthParams :: "AuthConfig \<Rightarrow> string obj" where
  "buildAuthParams config =
     (if cfg_method config = QUERY_PARAM
      then obj_set (or_else (paramName config) ''key'') (cfg_apiKey config) []
      else [])"

definition detectAuthMethod :: "string \<Rightarrow> string \<Rightarrow> AuthMethod" where
  "detectAuthMethod url_in key_in =
     (let url = toLowerCase url_in in
      if str_includes url ''generativelanguage.googleapis.com'' \<or>
         str_includes url ''aiplatform.googleapis.com''
      then QUERY_PARAM
      else if str_includes url ''anthropic.com'' then API_KEY_HEADER
      else if str_includes url ''aip.baidubce.com'' then QUERY_PARAM
      else BEARER_TOKEN)"

definition buildAuthAttempts :: "Provider \<Rightarrow> string obj \<Rightarrow> attempt list" where
  "buildAuthAttempts p extraHeaders =
     (case authConfig p of
        Some ac \<Rightarrow>
          [\<lparr>headers = obj_spread (buildAuthHeaders ac) extraHeaders, params = buildAuthParams ac\<rparr>]
      | None \<Rightarrow>
          (let detectedMethod = detectAuthMethod (baseUrl p) (apiKey p);
               ac = \<lparr>cfg_method = detectedMethod, cfg_apiKey = apiKey p,
                     headerName = (if detectedMethod = API_KEY_HEADER then Some ''x-api-key'' else None),
                     paramName = (if detectedMethod = QUERY_PARAM then Some ''key'' else None),
                     username = None, password = None\<rparr>
           in [\<lparr>headers = obj_spread (buildAuthHeaders ac) extraHeaders,
                params = buildAuthParams ac\<rparr>]))"

text \<open>
  The list that the claim describes for a provider with no family hint: a bearer token,
  then the \<^verbatim>\<open>x-api-key\<close> header, then the \<^verbatim>\<open>key\<close> query parameter.
\<close>

definition three_attempts :: "Provider \<Rightarrow> string obj \<Rightarrow> attempt list" where
  "three_attempts p extraHeaders =
     [\<lparr>headers = obj_spread [(''Authorization'', ''Bearer '' @ apiKey p)] extraHeaders, params = []\<rparr>,
      \<lparr>headers = obj_spread [(''x-api-key'', apiKey p)] extraHeaders, params = []\<rparr>,
      \<lparr>headers = obj_spread [] extraHeaders, params = [(''key'', apiKey p)]\<rparr>]"

subsection \<open>The name heuristic \<^verbatim>\<open>detectCompat\<close>\<close>

text \<open>The class \<^verbatim>\<open>\w\<close> of a regular expression: letters, digits and the underscore.\<close>

definition is_word_char :: "char \<Rightarrow> bool" where
  "is_word_char c =
     (let n = (of_char c :: nat) in
      (48 \<le> n \<and> n \<le> 57) \<or> (65 \<le> n \<and> n \<le> 90) \<or> (97 \<le> n \<and> n \<le> 122) \<or> n = 95)"

text \<open>
  \<open>word_ends w s\<close>: \<open>s\<close> starts with \<open>w\<close> and a word boundary \<^verbatim>\<open>\b\<close> follows.
  \<open>has_word w prevw s\<close>: the pattern \<^verbatim>\<open>\bw\b\<close> matches somewhere in \<open>s\<close>, where
  \<open>prevw\<close> tells whether the character before \<open>s\<close> is a word character. The words
  looked for start and end with a letter or a digit.
\<close>

definition word_ends :: "string \<Rightarrow> string \<Rightarrow> bool" where
  "word_ends w s =
     (prefix w s \<and> (case drop (length w) s of [] \<Rightarrow> True | d # rest \<Rightarrow> \<not> is_word_char d))"

fun has_word :: "string \<Rightarrow> bool \<Rightarrow> string \<Rightarrow> bool" where
  "has_word w prevw [] = False"
| "has_word w prevw (c # cs) =
     ((\<not> prevw \<and> word_ends w (c # cs)) \<or> has_word w (is_word_char c) cs)"

text \<open>\<open>lc\<close> is the function \<^verbatim>\<open>toLowerCase\<close> of the strings of the source.\<close>

definition detectCompat :: "(string \<Rightarrow> string) \<Rightarrow> string \<Rightarrow> string \<Rightarrow> string \<Rightarrow> Compat" where
  "detectCompat lc name_in model url_in =
     (let m = lc model in
      if has_word ''claude'' False m \<or> str_includes m ''anthropic'' then claude
      else if has_word ''gemini'' False m \<or> prefix ''gemini-'' m \<or>
              str_includes m ''image-generation'' then gemini
      else if prefix ''gpt-'' m \<or> str_includes m ''gpt-4o'' \<or> str_includes m ''gpt-image'' \<or>
              str_includes m ''dall-e'' \<or> word_ends ''tts-1'' m then openai
      else openai)"

subsection \<open>The persisted document and the state of the module\<close>

record turn =
  role :: string
  content :: string

text \<open>
  The selectors \<^verbatim>\<open>models.chat\<close>, \<^verbatim>\<open>models.search\<close>, \<^verbatim>\<open>models.image\<close> and
  \<^verbatim>\<open>models.tts\<close>, each a text \<^verbatim>\<open>provider model\<close> or empty.
\<close>

record Models =
  sel_chat :: string
  sel_search :: string
  sel_image :: string
  sel_tts :: string

text \<open>
  The fields of \<^verbatim>\<open>Store.data\<close> that the modelled functions read or write. An absent
  \<^verbatim>\<open>modelCompat\<close>, \<^verbatim>\<open>modelCatalog\<close> or \<^verbatim>\<open>histMeta\<close> is the empty object, as every
  read of the source takes it. \<open>catalog_map\<close> and \<open>catalog_updatedAt\<close> are
  \<^verbatim>\<open>modelCatalog.map\<close> and \<^verbatim>\<open>modelCatalog.updatedAt\<close>; a time is a number of
  milliseconds, and \<open>histMeta\<close> holds the \<^verbatim>\<open>lastAt\<close> of each session.
  \<open>dataVersion\<close> is the version counter of the document.
\<close>

record DB =
  providers :: "Provider obj"
  modelCompat :: "Compat obj obj"
  catalog_map :: "Compat obj"
  catalog_updatedAt :: "nat option"
  models :: Models
  histories :: "turn list obj"
  histMeta :: "nat obj"
  dataVersion :: int

text \<open>
  The state of the module: the document, the keys of the map \<^verbatim>\<open>compatResolving\<close>
  of the resolutions in flight (in the order of their insertion; the promise stored under
  a key is not part of the state) and the flag \<^verbatim>\<open>catalogInflight.refreshing\<close>.
\<close>

record gateway =
  db :: DB
  compatResolving :: "string list"
  refreshing :: bool

text \<open>\<^verbatim>\<open>compatResolving.set(k, task)\<close> and \<^verbatim>\<open>compatResolving.delete(k)\<close>\<close>

definition resolving_set :: "string \<Rightarrow> string list \<Rightarrow> string list" where
  "resolving_set k ks = (if k \<in> set ks then ks else ks @ [k])"

definition resolving_delete :: "string \<Rightarrow> string list \<Rightarrow> string list" where
  "resolving_delete k ks = removeAll k ks"

text \<open>What a function asks of its environment, in order.\<close>

datatype reply = Added | Updated | Removed | MissingArgs | NotFound | BadUrl | BadField

datatype effect = WriteSoon | ScheduleRefresh | RefreshCatalog bool | Reply reply

text \<open>
  The read \<^verbatim>\<open>modelCompat[name][ml]\<close> for a provider and a lower-cased model name.
  When \<^verbatim>\<open>modelCompat[name]\<close> is itself an inherited property, the second read is
  one of an object outside the document, and the result is \<open>Inherited\<close> as well.
\<close>

definition override :: "DB \<Rightarrow> string \<Rightarrow> string \<Rightarrow> Compat lookup" where
  "override d name ml =
     (case js_lookup (modelCompat d) name of
        Missing \<Rightarrow> Missing
      | Own mm \<Rightarrow> js_lookup mm ml
      | Inherited \<Rightarrow> Inherited)"

definition getCompatFromCatalog :: "(string \<Rightarrow> string) \<Rightarrow> DB \<Rightarrow> string \<Rightarrow> Compat lookup" where
  "getCompatFromCatalog lc d model = js_lookup (catalog_map d) (lc model)"

subsection \<open>Listing the models of a provider\<close>

text \<open>
  The answer of \<^verbatim>\<open>listModelsByAnyCompat\<close>. \<open>listing c\<close> is the outcome of
  \<^verbatim>\<open>listModels(p, c)\<close>: it throws (\<open>Inl\<close>) or returns the model names.
\<close>

record list_result =
  found_models :: "string list"
  compat :: "Compat option"
  compats :: "Compat list"
  modelMap :: "Compat obj"

text \<open>The loop state: \<^verbatim>\<open>merged\<close> (a Map, in insertion order), \<^verbatim>\<open>compats\<close>,
  \<^verbatim>\<open>modelMap\<close> and \<^verbatim>\<open>primary\<close>.\<close>

type_synonym list_state = "(string \<times> string) list \<times> Compat list \<times> Compat obj \<times> Compat option"

definition add_model :: "(string \<Rightarrow> string) \<Rightarrow> Compat \<Rightarrow> string \<Rightarrow> list_state \<Rightarrow> list_state" where
  "add_model lc c m st =
     (case st of (merged, cs, mmap, primary) \<Rightarrow>
        (let k = lc m;
             merged' = (if k \<noteq> [] \<and> map_of merged k = None then merged @ [(k, m)] else merged);
             mmap' = (if k \<noteq> [] \<and> js_lookup mmap k = Missing then js_assign k c mmap else mmap)
         in (merged', cs, mmap', primary)))"

definition list_step ::
  "(string \<Rightarrow> string) \<Rightarrow> (Compat \<Rightarrow> unit + string list) \<Rightarrow> list_state \<Rightarrow> Compat \<Rightarrow> list_state" where
  "list_step lc listing st c =
     (case listing c of
        Inl e \<Rightarrow> st
      | Inr names \<Rightarrow>
          if names = [] then st
          else (case st of (merged, cs, mmap, primary) \<Rightarrow>
                  foldl (\<lambda>s m. add_model lc c m s)
                    (merged, (if c \<in> set cs then cs else cs @ [c]), mmap,
                     (if primary = None then Some c else primary))
                    names))"

text \<open>The correction pass: a name that the heuristic takes for Gemini or Claude gets
  that family.\<close>

definition correct_family :: "(string \<Rightarrow> string) \<Rightarrow> Compat obj \<Rightarrow> string \<Rightarrow> Compat obj" where
  "correct_family lc mmap k =
     (let g = detectCompat lc [] k [] in
      if (g = gemini \<or> g = claude) \<and> js_lookup mmap k \<noteq> Own g then js_assign k g mmap else mmap)"

definition listModelsByAnyCompat ::
  "(string \<Rightarrow> string) \<Rightarrow> (Compat \<Rightarrow> unit + string list) \<Rightarrow> list_result" where
  "listModelsByAnyCompat lc listing =
     (case foldl (list_step lc listing) ([], [], [], None) [openai, gemini, claude] of
        (merged, cs, mmap, primary) \<Rightarrow>
          \<lparr>found_models = map snd merged, compat = primary, compats = cs,
           modelMap = foldl (correct_family lc) mmap (obj_keys mmap)\<rparr>)"

subsection \<open>The catalog refresh\<close>

text \<open>
  The work of \<^verbatim>\<open>refreshModelCatalog\<close>: the model maps of all providers, in the order
  of the providers, overwrite one another into \<^verbatim>\<open>merged\<close>, which replaces the
  catalog. \<open>listing_of name\<close> stands for the network behind the provider \<open>name\<close>.
\<close>

definition refresh_work ::
  "(string \<Rightarrow> string) \<Rightarrow> (string \<Rightarrow> Compat \<Rightarrow> unit + string list) \<Rightarrow> nat \<Rightarrow> DB \<Rightarrow>
   DB \<times> effect list" where
  "refresh_work lc listing_of now d =
     (let merged =
            foldl (\<lambda>acc (name, p).
                     foldl (\<lambda>a (k, v). js_assign k v a) acc
                       (modelMap (listModelsByAnyCompat lc (listing_of name))))
              [] (providers d)
      in (d\<lparr>catalog_map := merged, catalog_updatedAt := Some now\<rparr>, [WriteSoon]))"

text \<open>
  \<^verbatim>\<open>refreshModelCatalog(force)\<close>, run to its end: without \<open>force\<close> and with a refresh
  already running it starts nothing.
\<close>

definition refreshModelCatalog ::
  "(string \<Rightarrow> string) \<Rightarrow> (string \<Rightarrow> Compat \<Rightarrow> unit + string list) \<Rightarrow> nat \<Rightarrow> bool \<Rightarrow> gateway \<Rightarrow>
   gateway \<times> effect list" where
  "refreshModelCatalog lc listing_of now force g =
     (if \<not> force \<and> refreshing g then (g, [])
      else (case refresh_work lc listing_of now (db g) of
              (d', effs) \<Rightarrow> (g\<lparr>db := d', refreshing := False\<rparr>, effs)))"

subsection \<open>\<^verbatim>\<open>resolveCompat\<close>\<close>

text \<open>The key of a resolution in flight.\<close>

definition resolving_key :: "string \<Rightarrow> string \<Rightarrow> string" where
  "resolving_key name ml = name @ ''::'' @ ml"

text \<open>
  The first part of \<^verbatim>\<open>resolveCompat\<close>, up to its first \<^verbatim>\<open>await\<close>: it returns at once
  the family it has found (\<open>Resolved\<close>), or it has scheduled the background refresh and
  waits for a resolution already in flight (\<open>Awaits\<close>), or it has scheduled the
  refresh, started the probe with the heuristic value \<open>byName\<close> in hand and registered
  its task (\<open>Started\<close>). \<open>Foreign\<close>: one of the two reads met a property inherited
  from \<^verbatim>\<open>Object.prototype\<close>; the call then returns a value that is no family, or goes
  on with an object that is not part of the document, and is not followed further.
\<close>

datatype resolve_begin = Resolved Compat | Foreign | Awaits | Started Compat gateway

definition resolveCompat_begin ::
  "(string \<Rightarrow> string) \<Rightarrow> string \<Rightarrow> string \<Rightarrow> Provider \<Rightarrow> gateway \<Rightarrow> resolve_begin" where
  "resolveCompat_begin lc name model p g =
     (let ml = lc model in
      case override (db g) name ml of
        Own mc \<Rightarrow> Resolved mc
      | Inherited \<Rightarrow> Foreign
      | Missing \<Rightarrow>
         (case getCompatFromCatalog lc (db g) ml of
            Own cat \<Rightarrow> Resolved cat
          | Inherited \<Rightarrow> Foreign
          | Missing \<Rightarrow>
             (let byName = detectCompat lc name model (baseUrl p) in
              if resolving_key name ml \<in> set (compatResolving g) \<or> name \<in> set (compatResolving g)
              then Awaits
              else Started byName
                     (g\<lparr>compatResolving :=
                          resolving_set (resolving_key name ml) (compatResolving g)\<rparr>))))"

text \<open>The two merges of the probe: into the entries of the provider, only where the
  read finds nothing, and into the catalog.\<close>

definition merge_missing :: "Compat obj \<Rightarrow> Compat obj \<Rightarrow> Compat obj" where
  "merge_missing found mm =
     foldl (\<lambda>acc (k, v). if js_lookup acc k = Missing then js_assign k v acc else acc) mm found"

definition merge_catalog :: "Compat obj \<Rightarrow> Compat obj \<Rightarrow> Compat obj" where
  "merge_catalog found cat =
     foldl (\<lambda>acc (k, v). if js_lookup acc k \<noteq> Own v then js_assign k v acc else acc) cat found"

definition finish_resolving :: "string \<Rightarrow> string \<Rightarrow> gateway \<Rightarrow> gateway" where
  "finish_resolving name ml g =
     g\<lparr>compatResolving :=
         resolving_delete name (resolving_delete (resolving_key name ml) (compatResolving g))\<rparr>"

text \<open>
  The task of the probe once \<^verbatim>\<open>listModelsByAnyCompat\<close> has answered with \<open>res\<close>, on the
  state \<open>g\<close> of that moment. The provider \<open>p\<close> of the call is the object stored under
  \<open>name\<close>, so the hint \<^verbatim>\<open>compatauth\<close> is set there. The result is \<open>None\<close> when
  \<^verbatim>\<open>modelCompat[name]\<close> or the entry read for \<open>ml\<close> is an inherited property: the
  task then works on an object outside the document, or returns a value that is no
  family, and is not followed.
\<close>

definition task_ok ::
  "string \<Rightarrow> string \<Rightarrow> Compat \<Rightarrow> list_result \<Rightarrow> nat \<Rightarrow> gateway \<Rightarrow>
   (Compat \<times> gateway \<times> effect list) option" where
  "task_ok name ml byName res now g =
     (let d = db g;
          primary = compat res;
          found = modelMap res;
          at_name = js_lookup (modelCompat d) name;
          mm0 = (case at_name of Own mm \<Rightarrow> mm | _ \<Rightarrow> []);
          mm1 = merge_missing found mm0;
          at_ml = js_lookup mm1 ml;
          comp = (case at_ml of
                    Own c \<Rightarrow> c
                  | _ \<Rightarrow> (case primary of Some c \<Rightarrow> c | None \<Rightarrow> byName));
          mm2 = (if at_ml = Missing then js_assign ml comp mm1 else mm1);
          cat1 = merge_catalog found (catalog_map d);
          cat2 = (if js_lookup cat1 ml \<noteq> Own comp then js_assign ml comp cat1 else cat1);
          provs =
            (case primary of
               None \<Rightarrow> providers d
             | Some c \<Rightarrow>
                (case js_lookup (providers d) name of
                   Own p \<Rightarrow>
                     if compatauth p \<noteq> Some c
                     then js_assign name (p\<lparr>compatauth := Some c\<rparr>) (providers d)
                     else providers d
                 | _ \<Rightarrow> providers d));
          d' = d\<lparr>providers := provs, modelCompat := js_assign name mm2 (modelCompat d),
                 catalog_map := cat2, catalog_updatedAt := Some now\<rparr>
      in if at_name = Inherited \<or> at_ml = Inherited then None
         else Some (comp, finish_resolving name ml (g\<lparr>db := d'\<rparr>), [WriteSoon]))"

text \<open>The \<^verbatim>\<open>catch\<close> branch of the task: the heuristic value is stored where the read
  finds nothing.\<close>

definition task_failed ::
  "string \<Rightarrow> string \<Rightarrow> Compat \<Rightarrow> gateway \<Rightarrow> (Compat \<times> gateway \<times> effect list) option" where
  "task_failed name ml byName g =
     (let d = db g;
          at_name = js_lookup (modelCompat d) name;
          mm0 = (case at_name of Own mm \<Rightarrow> mm | _ \<Rightarrow> [])
      in if at_name = Inherited then None
         else if js_lookup mm0 ml = Missing
         then Some (byName,
               finish_resolving name ml
                 (g\<lparr>db := d\<lparr>modelCompat := js_assign name (js_assign ml byName mm0) (modelCompat d)\<rparr>\<rparr>),
               [WriteSoon, ScheduleRefresh])
         else Some (byName,
               finish_resolving name ml (g\<lparr>db := d\<lparr>modelCompat := js_assign name mm0 (modelCompat d)\<rparr>\<rparr>),
               [ScheduleRefresh]))"

text \<open>The outcome of the awaited call of \<^verbatim>\<open>listModelsByAnyCompat\<close>.\<close>

datatype probe = ProbeThrows | ProbeReturns list_result

definition resolve_task ::
  "string \<Rightarrow> string \<Rightarrow> Compat \<Rightarrow> probe \<Rightarrow> nat \<Rightarrow> gateway \<Rightarrow>
   (Compat \<times> gateway \<times> effect list) option" where
  "resolve_task name ml byName pr now g =
     (case pr of
        ProbeReturns res \<Rightarrow> task_ok name ml byName res now g
      | ProbeThrows \<Rightarrow> task_failed name ml byName g)"

text \<open>
  \<^verbatim>\<open>resolveCompat\<close> from call to return when nothing else runs in between: the value
  returned to the caller, the state left and the effects asked for. \<open>awaited\<close> is the
  value that a resolution already in flight delivers. The result is \<open>None\<close> where the
  call is not followed (\<open>Foreign\<close>, and the cases of the task named above).
\<close>

definition resolveCompat ::
  "(string \<Rightarrow> string) \<Rightarrow> string \<Rightarrow> string \<Rightarrow> Provider \<Rightarrow> probe \<Rightarrow> Compat \<Rightarrow> nat \<Rightarrow> gateway \<Rightarrow>
   (Compat \<times> gateway \<times> effect list) option" where
  "resolveCompat lc name model p pr awaited now g =
     (case resolveCompat_begin lc name model p g of
        Resolved c \<Rightarrow> Some (c, g, [])
      | Foreign \<Rightarrow> None
      | Awaits \<Rightarrow> Some (awaited, g, [ScheduleRefresh])
      | Started byName g1 \<Rightarrow>
          (case resolve_task name (lc model) byName pr now g1 of
             None \<Rightarrow> None
           | Some (c, g2, effs) \<Rightarrow> Some (c, g2, ScheduleRefresh # effs)))"

subsection \<open>The migration of \<^verbatim>\<open>Store.init\<close>\<close>

text \<open>
  The block that \<^verbatim>\<open>Store.init\<close> runs on a document whose \<^verbatim>\<open>dataVersion\<close> is below 3
  (the defaults for absent fields are filled in before it, and a version below 2 is
  raised to 2). After a forced refresh of the catalog it goes through the entries of
  \<^verbatim>\<open>modelCompat\<close>, each object \<^verbatim>\<open>dict\<close> of a provider through the list of its entries
  taken at the start. \<open>migrate_entry\<close> is one round of the inner loop on \<open>dict\<close>; it is
  \<open>None\<close> when the catalog read meets an inherited property, whose value (no family)
  the source would store. \<open>base_of\<close> is \<^verbatim>\<open>provCfg?.baseUrl || ""\<close>.
\<close>

definition base_of :: "Provider obj \<Rightarrow> string \<Rightarrow> string" where
  "base_of provs prov = (case js_lookup provs prov of Own p \<Rightarrow> baseUrl p | _ \<Rightarrow> [])"

definition migrate_entry ::
  "(string \<Rightarrow> string) \<Rightarrow> Compat obj \<Rightarrow> string \<Rightarrow> string \<Rightarrow> Compat obj option \<Rightarrow> string \<times> Compat \<Rightarrow>
   Compat obj option" where
  "migrate_entry lc catMap prov base acc e =
     (case acc of
        None \<Rightarrow> None
      | Some dict \<Rightarrow>
         (case e of (k0, cur) \<Rightarrow>
            (let k = lc k0 in
             case js_lookup catMap k of
               Inherited \<Rightarrow> None
             | Own cat \<Rightarrow> if cat \<noteq> cur then Some (js_assign k cat dict) else Some dict
             | Missing \<Rightarrow>
                 if cur = openai
                 then (let inf = detectCompat lc prov k base in
                       if inf = gemini \<or> inf = claude then Some (js_assign k inf dict)
                       else Some dict)
                 else Some dict)))"

definition migrate_dict ::
  "(string \<Rightarrow> string) \<Rightarrow> Compat obj \<Rightarrow> string \<Rightarrow> string \<Rightarrow> Compat obj \<Rightarrow> Compat obj option" where
  "migrate_dict lc catMap prov base dict = foldl (migrate_entry lc catMap prov base) (Some dict) dict"

text \<open>The outer loop: every \<^verbatim>\<open>dict\<close> is changed in place, so the entries of
  \<^verbatim>\<open>modelCompat\<close> keep their keys and their order.\<close>

fun migrate_all ::
  "(string \<Rightarrow> string) \<Rightarrow> Compat obj \<Rightarrow> Provider obj \<Rightarrow> Compat obj obj \<Rightarrow> Compat obj obj option" where
  "migrate_all lc catMap provs [] = Some []"
| "migrate_all lc catMap provs ((prov, mm) # rest) =
     (case migrate_dict lc catMap prov (base_of provs prov) mm of
        None \<Rightarrow> None
      | Some mm' \<Rightarrow>
         (case migrate_all lc catMap provs rest of
            None \<Rightarrow> None
          | Some rest' \<Rightarrow> Some ((prov, mm') # rest')))"

text \<open>The block with the \<^verbatim>\<open>writeSoon\<close> that ends \<^verbatim>\<open>Store.init\<close>.\<close>

definition Store_init_migration ::
  "(string \<Rightarrow> string) \<Rightarrow> (string \<Rightarrow> Compat \<Rightarrow> unit + string list) \<Rightarrow> nat \<Rightarrow> gateway \<Rightarrow>
   (gateway \<times> effect list) option" where
  "Store_init_migration lc listing_of now g =
     (if dataVersion (db g) < 3
      then (case refreshModelCatalog lc listing_of now True g of
              (g1, effs) \<Rightarrow>
                (case migrate_all lc (catalog_map (db g1)) (providers (db g1)) (modelCompat (db g1)) of
                   None \<Rightarrow> None
                 | Some mc \<Rightarrow>
                     Some (g1\<lparr>db := (db g1)\<lparr>modelCompat := mc, dataVersion := 3\<rparr>\<rparr>,
                           effs @ [WriteSoon])))
      else Some (g, [WriteSoon]))"

subsection \<open>The configuration commands for providers\<close>

text \<open>\<^verbatim>\<open>u.replace(/\/$/, "")\<close> and \<^verbatim>\<open>s.trim()\<close> (on the white space of ASCII).\<close>

definition trimBase :: "string \<Rightarrow> string" where
  "trimBase u = (if u \<noteq> [] \<and> last u = CHR ''/'' then butlast u else u)"

definition is_space :: "char \<Rightarrow> bool" where
  "is_space c = ((9 \<le> (of_char c :: nat) \<and> (of_char c :: nat) \<le> 13) \<or> (of_char c :: nat) = 32)"

definition js_trim :: "string \<Rightarrow> string" where
  "js_trim s = rev (dropWhile is_space (rev (dropWhile is_space s)))"

text \<open>
  \<^verbatim>\<open>ai config add name key baseUrl\<close>. \<open>url_ok\<close> stands for the check that
  \<^verbatim>\<open>new URL(baseUrl)\<close> parses with the protocol http or https.
\<close>

definition config_add ::
  "(string \<Rightarrow> bool) \<Rightarrow> string \<Rightarrow> string \<Rightarrow> string \<Rightarrow> gateway \<Rightarrow> gateway \<times> effect list" where
  "config_add url_ok name key url g =
     (if name = [] \<or> key = [] \<or> url = [] then (g, [Reply MissingArgs])
      else if \<not> url_ok url then (g, [Reply BadUrl])
      else
        (g\<lparr>db := (db g)\<lparr>
              providers :=
                js_assign name
                  \<lparr>apiKey = key, baseUrl = trimBase (js_trim url), compatauth = None,
                   authMethod = None, authConfig = None\<rparr>
                  (providers (db g)),
              modelCompat := obj_delete name (modelCompat (db g))\<rparr>,
            compatResolving := resolving_delete name (compatResolving g)\<rparr>,
         [WriteSoon, RefreshCatalog True, Reply Added]))"

text \<open>
  \<^verbatim>\<open>ai config update name field value\<close>, where \<open>val\<close> is the trimmed rest of the
  arguments. The fields are written into the object \<^verbatim>\<open>p\<close> that the read
  \<^verbatim>\<open>providers[name]\<close> finds: a provider of the document, or an inherited property,
  in which case the providers of the document stay as they are.
\<close>

definition update_done :: "string \<Rightarrow> Provider obj \<Rightarrow> gateway \<Rightarrow> gateway \<times> effect list" where
  "update_done name provs g =
     (g\<lparr>db := (db g)\<lparr>providers := provs,
                     modelCompat := obj_delete name (modelCompat (db g))\<rparr>,
         compatResolving := resolving_delete name (compatResolving g)\<rparr>,
      [WriteSoon, RefreshCatalog True, Reply Updated])"

definition config_update ::
  "(string \<Rightarrow> string) \<Rightarrow> (string \<Rightarrow> bool) \<Rightarrow> string \<Rightarrow> string \<Rightarrow> string \<Rightarrow> gateway \<Rightarrow>
   gateway \<times> effect list" where
  "config_update lc url_ok name field val g =
     (if name = [] \<or> field = [] \<or> val = [] then (g, [Reply MissingArgs])
      else
        (let provs = providers (db g);
             written = (\<lambda>f. case js_lookup provs name of
                               Own p \<Rightarrow> obj_set name (f p) provs
                             | _ \<Rightarrow> provs)
         in if js_lookup provs name = Missing then (g, [Reply NotFound])
            else if lc field = ''apikey''
            then update_done name (written (\<lambda>p. p\<lparr>apiKey := val, compatauth := None\<rparr>)) g
            else if lc field = ''baseurl''
            then (if \<not> url_ok val then (g, [Reply BadUrl])
                  else update_done name
                         (written (\<lambda>p. p\<lparr>baseUrl := trimBase (js_trim val), compatauth := None\<rparr>)) g)
            else (g, [Reply BadField])))"

text \<open>\<^verbatim>\<open>ai config remove target\<close>; the argument is lower-cased first.\<close>

definition clear_selector :: "string \<Rightarrow> string \<Rightarrow> string" where
  "clear_selector target v = (if v \<noteq> [] \<and> prefix (target @ '' '') v then [] else v)"

definition config_remove ::
  "(string \<Rightarrow> string) \<Rightarrow> string \<Rightarrow> gateway \<Rightarrow> gateway \<times> effect list" where
  "config_remove lc arg g =
     (let target = lc arg in
      if target = [] then (g, [Reply MissingArgs])
      else if target = ''all''
      then (g\<lparr>db := (db g)\<lparr>providers := [], modelCompat := [], catalog_map := [],
                            catalog_updatedAt := None\<rparr>,
              compatResolving := []\<rparr>,
            [WriteSoon, RefreshCatalog True, Reply Removed])
      else
        (if js_lookup (providers (db g)) target = Missing then (g, [Reply NotFound])
         else
            (g\<lparr>db := (db g)\<lparr>
                  providers := obj_delete target (providers (db g)),
                  modelCompat := obj_delete target (modelCompat (db g)),
                  models :=
                    \<lparr>sel_chat = clear_selector target (sel_chat (models (db g))),
                     sel_search = clear_selector target (sel_search (models (db g))),
                     sel_image = clear_selector target (sel_image (models (db g))),
                     sel_tts = clear_selector target (sel_tts (models (db g)))\<rparr>\<rparr>\<rparr>,
             [WriteSoon, RefreshCatalog True, Reply Removed])))"

subsection \<open>Concrete states used in the examples\<close>

definition acme :: Provider where
  "acme = \<lparr>apiKey = ''sk-1'', baseUrl = ''https://api.acme.ai'', compatauth = None,
           authMethod = None, authConfig = None\<rparr>"

definition empty_db :: DB where
  "empty_db = \<lparr>providers = [], modelCompat = [], catalog_map = [], catalog_updatedAt = None,
               models = \<lparr>sel_chat = [], sel_search = [], sel_image = [], sel_tts = []\<rparr>,
               histories = [], histMeta = [], dataVersion = 3\<rparr>"

text \<open>The provider \<open>acme\<close> alone, nothing cached, nothing in flight.\<close>

definition g_acme :: gateway where
  "g_acme = \<lparr>db = empty_db\<lparr>providers := [(''acme'', acme)]\<rparr>, compatResolving = [],
             refreshing = False\<rparr>"

text \<open>The same with the manual override \<^verbatim>\<open>claude\<close> for the model \<^verbatim>\<open>gpt-4o\<close> and a
  catalog that says \<^verbatim>\<open>openai\<close>.\<close>

definition g_manual :: gateway where
  "g_manual = \<lparr>db = empty_db\<lparr>providers := [(''acme'', acme)],
                              modelCompat := [(''acme'', [(''gpt-4o'', claude)])],
                              catalog_map := [(''gpt-4o'', openai)]\<rparr>,
               compatResolving = [], refreshing = False\<rparr>"

text \<open>The provider \<open>acme\<close> with a cached entry and the resolution of
  \<^verbatim>\<open>(acme, gpt-4o)\<close> in flight.\<close>

definition g_inflight :: gateway where
  "g_inflight = \<lparr>db = empty_db\<lparr>providers := [(''acme'', acme)],
                                modelCompat := [(''acme'', [(''gpt-4o-mini'', openai)])]\<rparr>,
                 compatResolving = [''acme::gpt-4o''], refreshing = False\<rparr>"

text \<open>The same document as it was stored before version 3.\<close>

definition g_legacy :: gateway where
  "g_legacy = g_manual\<lparr>db := (db g_manual)\<lparr>dataVersion := 2\<rparr>\<rparr>"

text \<open>
  Two networks: a provider whose model list, on every route that \<^verbatim>\<open>listModels\<close>
  tries, is the single model \<^verbatim>\<open>gpt-4o\<close>; and one where every listing fails.
\<close>

definition lists_gpt4o :: "Compat \<Rightarrow> unit + string list" where
  "lists_gpt4o c = Inr [''gpt-4o'']"

definition all_fail :: "Compat \<Rightarrow> unit + string list" where
  "all_fail c = Inl ()"
subsection \<open>The conversation history store\<close>

text \<open>
  The texts of a turn are given by their UTF-8 bytes, so that the length of
  \<^verbatim>\<open>role:content\<close> is \<^verbatim>\<open>Buffer.byteLength\<close> of it.
\<close>

definition MAX_ITEMS :: nat where "MAX_ITEMS = 50"
definition MAX_BYTES :: nat where "MAX_BYTES = 64 * 1024"
definition HISTORY_GLOBAL_MAX_SESSIONS :: nat where "HISTORY_GLOBAL_MAX_SESSIONS = 200"
definition HISTORY_GLOBAL_MAX_BYTES :: nat where "HISTORY_GLOBAL_MAX_BYTES = 2 * 1024 * 1024"

definition sizeOfItem :: "turn \<Rightarrow> nat" where
  "sizeOfItem x = length (role x @ '':'' @ content x)"

definition sizeOfHist :: "turn list \<Rightarrow> nat" where
  "sizeOfHist arr = foldl (\<lambda>t x. t + sizeOfItem x) 0 arr"

definition histFor :: "DB \<Rightarrow> string \<Rightarrow> turn list" where
  "histFor d ident = (case obj_get (histories d) ident of None \<Rightarrow> [] | Some h \<Rightarrow> h)"

text \<open>\<^verbatim>\<open>while (h.length > MAX_ITEMS) h.shift()\<close>\<close>

function trim_items :: "turn list \<Rightarrow> turn list" where
  "trim_items h = (if length h > MAX_ITEMS then trim_items (tl h) else h)"
  by pat_completeness auto
termination
  by (relation "measure length") auto

text \<open>\<^verbatim>\<open>while (total > MAX_BYTES && h.length > 1) { first = h.shift(); total -= sizeOf(first) }\<close>\<close>

function trim_bytes :: "nat \<Rightarrow> turn list \<Rightarrow> turn list" where
  "trim_bytes tot h =
     (if tot > MAX_BYTES \<and> length h > 1
      then trim_bytes (tot - sizeOfItem (hd h)) (tl h)
      else h)"
  by pat_completeness auto
termination
  by (relation "measure (\<lambda>(tot, h). length h)") auto

text \<open>
  The victims of the global eviction, taken from the front of \<open>sorted\<close>:
  \<^verbatim>\<open>while ((sorted.length > MAX_SESSIONS || totalBytes > MAX_BYTES) && sorted.length)\<close>.
\<close>

fun evict :: "string list \<Rightarrow> nat \<Rightarrow> DB \<Rightarrow> DB" where
  "evict [] totalBytes d = d"
| "evict (victim # rest) totalBytes d =
     (if length (victim # rest) > HISTORY_GLOBAL_MAX_SESSIONS \<or> totalBytes > HISTORY_GLOBAL_MAX_BYTES
      then evict rest (totalBytes - sizeOfHist (histFor d victim))
             (d\<lparr>histories := obj_delete victim (histories d),
                histMeta := obj_delete victim (histMeta d)\<rparr>)
      else d)"

text \<open>The time \<^verbatim>\<open>Date.parse(meta[a]?.lastAt || "1970-01-01T00:00:00.000Z")\<close>.\<close>

definition lastAt_of :: "nat obj \<Rightarrow> string \<Rightarrow> nat" where
  "lastAt_of meta a = (case obj_get meta a of None \<Rightarrow> 0 | Some t \<Rightarrow> t)"

text \<open>
  \<^verbatim>\<open>ids.sort((a, b) => ta - tb)\<close> is a stable sort by the time, as \<open>sort_key\<close> is.
\<close>

definition pruneGlobalHistories :: "DB \<Rightarrow> DB" where
  "pruneGlobalHistories d =
     (let ids = obj_keys (histories d) in
      if ids = [] then d
      else
        (let totalBytes = foldl (\<lambda>t k. t + sizeOfHist (histFor d k)) 0 ids in
         if length ids \<le> HISTORY_GLOBAL_MAX_SESSIONS \<and> totalBytes \<le> HISTORY_GLOBAL_MAX_BYTES
         then d
         else evict (sort_key (lastAt_of (histMeta d)) ids) totalBytes d))"

text \<open>
  \<open>pushHist\<close> up to the call of \<^verbatim>\<open>pruneGlobalHistories\<close>: the turn is pushed, the
  session is cut to its limits and its time of last write is set to \<open>now\<close>.
\<close>

definition push_session :: "string \<Rightarrow> string \<Rightarrow> string \<Rightarrow> nat \<Rightarrow> DB \<Rightarrow> DB" where
  "push_session ident r c now d =
     (let h1 = histFor d ident @ [\<lparr>role = r, content = c\<rparr>];
          h2 = trim_items h1;
          h3 = trim_bytes (foldl (\<lambda>t x. t + sizeOfItem x) 0 h2) h2
      in d\<lparr>histories := obj_set ident h3 (histories d),
            histMeta := obj_set ident now (histMeta d)\<rparr>)"

definition pushHist :: "string \<Rightarrow> string \<Rightarrow> string \<Rightarrow> nat \<Rightarrow> DB \<Rightarrow> DB" where
  "pushHist ident r c now d = pruneGlobalHistories (push_session ident r c now d)"

text \<open>A sequence of appends to one session, each with its time.\<close>

definition appends :: "string \<Rightarrow> (turn \<times> nat) list \<Rightarrow> DB \<Rightarrow> DB" where
  "appends ident ops d = foldl (\<lambda>d' (t, now). pushHist ident (role t) (content t) now d') d ops"

text \<open>The number of sessions and the bytes of all sessions of the store.\<close>

definition session_count :: "DB \<Rightarrow> nat" where
  "session_count d = length (obj_keys (histories d))"

definition store_bytes :: "DB \<Rightarrow> nat" where
  "store_bytes d = sum_list (map (\<lambda>(k, h). sizeOfHist h) (histories d))"

subsection \<open>Splitting a long message\<close>

text \<open>
  The length of a JavaScript string counts UTF-16 code units, so a message text is the
  list of its code units; \<open>utf16\<close> gives the units of a text of ASCII characters.
\<close>

type_synonym ustring = "nat list"

definition utf16 :: "string \<Rightarrow> ustring" where
  "utf16 s = map of_char s"

definition nl :: nat where "nl = 10"

definition MAX_MSG :: nat where "MAX_MSG = 4096"
definition PAGE_EXTRA :: int where "PAGE_EXTRA = 48"
definition WRAP_EXTRA_COLLAPSED :: int where "WRAP_EXTRA_COLLAPSED = 64"

text \<open>\<^verbatim>\<open>text.split("\n")\<close>\<close>

fun split_lines :: "ustring \<Rightarrow> ustring list" where
  "split_lines [] = [[]]"
| "split_lines (c # cs) =
     (if c = nl then [] # split_lines cs
      else (c # hd (split_lines cs)) # tl (split_lines cs))"

text \<open>\<^verbatim>\<open>Math.max(1, MAX_MSG - Math.max(0, reserve))\<close>\<close>

definition split_limit :: "int \<Rightarrow> nat" where
  "split_limit reserve = nat (max 1 (int MAX_MSG - max 0 reserve))"

text \<open>
  \<^verbatim>\<open>for (let i = 0; i < line.length; i += limit) parts.push(line.slice(i, i + limit))\<close>;
  the limit is at least 1 in every call.
\<close>

function slices :: "nat \<Rightarrow> ustring \<Rightarrow> ustring list" where
  "slices limit line =
     (if 0 < limit \<and> line \<noteq> [] then take limit line # slices limit (drop limit line) else [])"
  by pat_completeness auto
termination
  by (relation "measure (\<lambda>(limit, line). length line)") auto

text \<open>One round of the loop over the lines, on the pair of \<^verbatim>\<open>parts\<close> and \<^verbatim>\<open>cur\<close>.\<close>

definition split_step :: "nat \<Rightarrow> ustring list \<times> ustring \<Rightarrow> ustring \<Rightarrow> ustring list \<times> ustring" where
  "split_step limit st line =
     (case st of (parts, cur) \<Rightarrow>
        if length line > limit
        then ((if cur \<noteq> [] then parts @ [cur] else parts) @ slices limit line, [])
        else
          (let next = (if cur \<noteq> [] then cur @ [nl] @ line else line) in
           if length next > limit then (parts @ [cur], line) else (parts, next)))"

definition splitMessage :: "ustring \<Rightarrow> int \<Rightarrow> ustring list" where
  "splitMessage text reserve =
     (let limit = split_limit reserve in
      if length text \<le> limit then [text]
      else
        (case foldl (split_step limit) ([], []) (split_lines text) of
           (parts, cur) \<Rightarrow> if cur \<noteq> [] then parts @ [cur] else parts))"

text \<open>
  For the statement about what the segments keep of the text: \<open>weave gaps parts\<close> is
  the text made of the segments in order, each one behind its gap, and a gap is a run of
  line breaks and nothing else, possibly empty.
\<close>

definition weave :: "ustring list \<Rightarrow> ustring list \<Rightarrow> ustring" where
  "weave gaps parts = concat (map (\<lambda>(g, p). g @ p) (zip gaps parts))"

definition breaks_only :: "ustring \<Rightarrow> bool" where
  "breaks_only g = list_all (\<lambda>c. c = nl) g"

text \<open>
  \<open>has_blockquote s\<close>: the test \<^verbatim>\<open>/<blockquote(?:\s|>|\/)/i\<close>, which the other test
  of \<^verbatim>\<open>applyWrap\<close> implies. \<open>is_space16\<close> is the class \<^verbatim>\<open>\s\<close>; the letters of
  the pattern match their capitals too.
\<close>

definition is_space16 :: "nat \<Rightarrow> bool" where
  "is_space16 u =
     ((9 \<le> u \<and> u \<le> 13) \<or> u = 32 \<or> u = 160 \<or> u = 5760 \<or> (8192 \<le> u \<and> u \<le> 8202) \<or>
      u = 8232 \<or> u = 8233 \<or> u = 8239 \<or> u = 8287 \<or> u = 12288 \<or> u = 65279)"

definition lower16 :: "nat \<Rightarrow> nat" where
  "lower16 u = (if 65 \<le> u \<and> u \<le> 90 then u + 32 else u)"

fun has_blockquote :: "ustring \<Rightarrow> bool" where
  "has_blockquote [] = False"
| "has_blockquote (c # cs) =
     ((prefix (utf16 ''<blockquote'') (map lower16 (c # cs)) \<and>
       (case drop 11 (c # cs) of
          [] \<Rightarrow> False
        | d # rest \<Rightarrow> is_space16 d \<or> d = of_char CHR ''>'' \<or> d = of_char CHR ''/'')) \<or>
      has_blockquote cs)"

definition applyWrap :: "ustring \<Rightarrow> bool \<Rightarrow> ustring" where
  "applyWrap s collapse =
     (if \<not> collapse then s
      else if has_blockquote s then s
      else utf16 ''<span class=\"tg-spoiler\">'' @ s @ utf16 ''</span>'')"

text \<open>The decimal digits of a number, as \<^verbatim>\<open>${i + 1}\<close> prints them.\<close>

function dec_digits :: "nat \<Rightarrow> ustring" where
  "dec_digits n = (if n < 10 then [48 + n] else dec_digits (n div 10) @ [48 + n mod 10])"
  by pat_completeness auto
termination
  by (relation "measure id") auto

text \<open>
  The page header: the page emoji U+1F4C4 (two code units), \<^verbatim>\<open> (i/total)\<close> and two
  line breaks.
\<close>

definition page_header :: "nat \<Rightarrow> nat \<Rightarrow> ustring" where
  "page_header i n =
     [55357, 56516] @ utf16 '' ('' @ dec_digits i @ utf16 ''/'' @ dec_digits n @ utf16 '')'' @ [nl, nl]"

text \<open>
  \<open>buildChunks\<close>; an absent \<^verbatim>\<open>collapse\<close> is \<open>False\<close> and an absent \<^verbatim>\<open>postfix\<close>
  is the empty text.
\<close>

definition buildChunks :: "ustring \<Rightarrow> bool \<Rightarrow> ustring \<Rightarrow> ustring list" where
  "buildChunks text collapse postfix =
     (let WRAP_EXTRA = (if collapse then WRAP_EXTRA_COLLAPSED else 0);
          parts = splitMessage text (PAGE_EXTRA + WRAP_EXTRA)
      in if length parts = 0 then []
         else if length parts = 1 then [applyWrap (parts ! 0) collapse @ postfix]
         else
           map (\<lambda>i. applyWrap (page_header (i + 1) (length parts) @ parts ! i) collapse @
                     (if i = length parts - 1 then postfix else []))
             [0..<length parts])"

subsection \<open>The Gemini request with its fallback to the older version\<close>

text \<open>
  \<^verbatim>\<open>String(err?.response?.data || err?.message || "")\<close>. A body is falsy when it is
  absent or the empty text. \<^verbatim>\<open>String\<close> prints a text as it is, a parsed object as
  \<^verbatim>\<open>[object Object]\<close> and an array as the prints of its elements joined by commas,
  where \<^verbatim>\<open>null\<close> and \<^verbatim>\<open>undefined\<close> (\<open>BodyAbsent\<close>) print as the empty text and any other
  primitive is given by its print (\<open>BodyOther\<close>).
\<close>

fun join_comma :: "string list \<Rightarrow> string" where
  "join_comma [] = []"
| "join_comma [x] = x"
| "join_comma (x # y # rest) = x @ '','' @ join_comma (y # rest)"

fun body_string :: "resp_body \<Rightarrow> string" where
  "body_string BodyAbsent = []"
| "body_string (BodyText s) = s"
| "body_string BodyObject = ''[object Object]''"
| "body_string (BodyArray xs) = join_comma (map body_string xs)"
| "body_string (BodyOther s) = s"

definition body_truthy :: "resp_body \<Rightarrow> bool" where
  "body_truthy b = (case b of BodyAbsent \<Rightarrow> False | BodyText s \<Rightarrow> s \<noteq> [] | _ \<Rightarrow> True)"

definition error_text :: "js_error \<Rightarrow> string" where
  "error_text err =
     (case response err of
        None \<Rightarrow> or_else (message err) []
      | Some r \<Rightarrow> if body_truthy (data r) then body_string (data r) else or_else (message err) [])"

text \<open>\<open>lc\<close> is the function \<^verbatim>\<open>toLowerCase\<close> of the strings of the source.\<close>

definition isRouteError :: "(string \<Rightarrow> string) \<Rightarrow> js_error \<Rightarrow> bool" where
  "isRouteError lc err =
     (let s = status_of err; txt = lc (error_text err) in
      s = Some 404 \<or> s = Some 405 \<or>
      (s = Some 400 \<and>
       (str_includes txt ''unknown'' \<or> str_includes txt ''not found'' \<or>
        str_includes txt ''invalid path'' \<or> str_includes txt ''no route'')))"

text \<open>The two paths tried, in this order: \<^verbatim>\<open>/v1beta\<close> and \<^verbatim>\<open>/v1\<close>.\<close>

datatype api_version = V1beta | V1

text \<open>The three request configurations of \<^verbatim>\<open>mkConfigs\<close>, from the headers and the
  parameters of the request of the caller.\<close>

definition cfgKey :: "Provider \<Rightarrow> string obj \<Rightarrow> string obj \<Rightarrow> attempt" where
  "cfgKey p hs ps =
     \<lparr>headers = obj_spread hs [], params = obj_set ''key'' (apiKey p) (obj_spread ps [])\<rparr>"

definition cfgXGoog :: "Provider \<Rightarrow> string obj \<Rightarrow> string obj \<Rightarrow> attempt" where
  "cfgXGoog p hs ps =
     \<lparr>headers = obj_set ''x-goog-api-key'' (apiKey p) (obj_spread hs []), params = obj_spread ps []\<rparr>"

definition cfgAuth :: "Provider \<Rightarrow> string obj \<Rightarrow> string obj \<Rightarrow> attempt" where
  "cfgAuth p hs ps =
     \<lparr>headers = obj_set ''Authorization'' (''Bearer '' @ apiKey p) (obj_spread hs []),
      params = obj_spread ps []\<rparr>"

text \<open>
  The loop that keeps the first configuration of each signature; the signature
  \<^verbatim>\<open>JSON.stringify({h, p})\<close> of two configurations is the same exactly when their
  headers and parameters are.
\<close>

fun dedupe :: "attempt list \<Rightarrow> attempt list \<Rightarrow> attempt list" where
  "dedupe seen [] = []"
| "dedupe seen (c # cs) = (if c \<in> set seen then dedupe seen cs else c # dedupe (c # seen) cs)"

definition mkConfigs :: "Provider \<Rightarrow> string obj \<Rightarrow> string obj \<Rightarrow> attempt list" where
  "mkConfigs p hs ps =
     (let pref = compatauth p;
          ordered =
            (if pref = Some openai \<or> pref = Some claude
             then [cfgAuth p hs ps, cfgXGoog p hs ps, cfgKey p hs ps]
             else [cfgKey p hs ps, cfgXGoog p hs ps, cfgAuth p hs ps])
      in dedupe [] ordered)"

text \<open>
  What the function did: the requests sent, in order, each with its version and
  configuration, and the data returned or the error thrown. \<open>net v c\<close> is the outcome
  of \<^verbatim>\<open>axiosWithRetry\<close> for the path of version \<open>v\<close> with the configuration \<open>c\<close>.
\<close>

record 'r gemini_run =
  requests :: "(api_version \<times> attempt) list"
  answer :: "js_error option + 'r"

text \<open>The inner loop over the configurations, which a route error leaves.\<close>

fun try_configs ::
  "(string \<Rightarrow> string) \<Rightarrow> (api_version \<Rightarrow> attempt \<Rightarrow> js_error + 'r) \<Rightarrow> api_version \<Rightarrow>
   js_error option \<Rightarrow> attempt list \<Rightarrow> 'r gemini_run" where
  "try_configs lc net v lastErr [] = \<lparr>requests = [], answer = Inl lastErr\<rparr>"
| "try_configs lc net v lastErr (c # cs) =
     (case net v c of
        Inr r \<Rightarrow> \<lparr>requests = [(v, c)], answer = Inr r\<rparr>
      | Inl err \<Rightarrow>
          if isRouteError lc err then \<lparr>requests = [(v, c)], answer = Inl (Some err)\<rparr>
          else (let rest = try_configs lc net v (Some err) cs
                in \<lparr>requests = (v, c) # requests rest, answer = answer rest\<rparr>))"

text \<open>The outer loop over the paths.\<close>

fun try_paths ::
  "(string \<Rightarrow> string) \<Rightarrow> (api_version \<Rightarrow> attempt \<Rightarrow> js_error + 'r) \<Rightarrow> js_error option \<Rightarrow>
   api_version list \<Rightarrow> attempt list \<Rightarrow> 'r gemini_run" where
  "try_paths lc net lastErr [] configs = \<lparr>requests = [], answer = Inl lastErr\<rparr>"
| "try_paths lc net lastErr (v # vs) configs =
     (let here = try_configs lc net v lastErr configs in
      case answer here of
        Inr r \<Rightarrow> here
      | Inl e \<Rightarrow>
          (let rest = try_paths lc net e vs configs
           in \<lparr>requests = requests here @ requests rest, answer = answer rest\<rparr>))"

definition geminiRequestWithFallback ::
  "(string \<Rightarrow> string) \<Rightarrow> (api_version \<Rightarrow> attempt \<Rightarrow> js_error + 'r) \<Rightarrow> Provider \<Rightarrow>
   string obj \<Rightarrow> string obj \<Rightarrow> 'r gemini_run" where
  "geminiRequestWithFallback lc net p hs ps =
     try_paths lc net None [V1beta, V1] (mkConfigs p hs ps)"

text \<open>
  For the statement of the claim, in its words. An attempt lets the loop of its version
  go on when it fails with an error that is not a route error. The attempts tried at a
  version are the configurations in order, up to and including the first that succeeds
  or meets a route error. The version has succeeded when that one succeeded. The outcome
  of a request, as the function hands it on.
\<close>

definition goes_on ::
  "(string \<Rightarrow> string) \<Rightarrow> (api_version \<Rightarrow> attempt \<Rightarrow> js_error + 'r) \<Rightarrow> api_version \<Rightarrow>
   attempt \<Rightarrow> bool" where
  "goes_on lc net v c = (case net v c of Inl err \<Rightarrow> \<not> isRouteError lc err | Inr r \<Rightarrow> False)"

definition attempts_tried ::
  "(string \<Rightarrow> string) \<Rightarrow> (api_version \<Rightarrow> attempt \<Rightarrow> js_error + 'r) \<Rightarrow> api_version \<Rightarrow>
   attempt list \<Rightarrow> attempt list" where
  "attempts_tried lc net v cs =
     takeWhile (goes_on lc net v) cs @ take 1 (dropWhile (goes_on lc net v) cs)"

definition version_succeeded ::
  "(string \<Rightarrow> string) \<Rightarrow> (api_version \<Rightarrow> attempt \<Rightarrow> js_error + 'r) \<Rightarrow> api_version \<Rightarrow>
   attempt list \<Rightarrow> bool" where
  "version_succeeded lc net v cs =
     (case dropWhile (goes_on lc net v) cs of
        [] \<Rightarrow> False
      | c # rest \<Rightarrow> (case net v c of Inl err \<Rightarrow> False | Inr r \<Rightarrow> True))"

definition outcome_of_request ::
  "(api_version \<Rightarrow> attempt \<Rightarrow> js_error + 'r) \<Rightarrow> api_version \<times> attempt \<Rightarrow> js_error option + 'r" where
  "outcome_of_request net vc =
     (case net (fst vc) (snd vc) of Inl err \<Rightarrow> Inl (Some err) | Inr r \<Rightarrow> Inr r)"

text \<open>An error response with status 404 and no body, as a missing route answers.\<close>

definition err404 :: js_error where
  "err404 = \<lparr>response = Some \<lparr>status = 404, data = BodyAbsent\<rparr>,
             code = Some ''ERR_BAD_REQUEST'', isAxiosError = True, message = None\<rparr>"

definition err401 :: js_error where
  "err401 = \<lparr>response = Some \<lparr>status = 401, data = BodyAbsent\<rparr>,
             code = Some ''ERR_BAD_REQUEST'', isAxiosError = True, message = None\<rparr>"

subsection \<open>The debounced persistence\<close>

text \<open>
  The state around \<^verbatim>\<open>Store.writeSoon\<close>: the document in memory, the document on disk,
  the handle in \<^verbatim>\<open>Store._writeTimer\<close>, the timers armed by \<^verbatim>\<open>setTimeout\<close> with
  the time at which each is due, the callbacks suspended inside \<^verbatim>\<open>atomicWriteJSON\<close>
  (each with the text \<^verbatim>\<open>json\<close> it serialized when it started), the number of
  disk writes completed and the next fresh handle. Times are in milliseconds.
\<close>

record 'd persist =
  mem :: 'd
  disk :: 'd
  writeTimer :: "nat option"
  armed :: "(nat \<times> nat) list"
  writing :: "'d list"
  disk_writes :: nat
  next_handle :: nat

definition writeSoonDelay :: nat where "writeSoonDelay = 300"

text \<open>
  \<^verbatim>\<open>writeSoon\<close> at the time \<open>now\<close>: \<^verbatim>\<open>clearTimeout\<close> of the stored handle disarms
  its timer if it is still armed, then a new timer is armed and its handle stored.
\<close>

definition writeSoon :: "nat \<Rightarrow> 'd persist \<Rightarrow> 'd persist" where
  "writeSoon now s =
     (let cleared =
            (case writeTimer s of
               None \<Rightarrow> armed s
             | Some h \<Rightarrow> filter (\<lambda>(h', due). h' \<noteq> h) (armed s));
          h = next_handle s
      in s\<lparr>armed := cleared @ [(h, now + writeSoonDelay)], writeTimer := Some h,
            next_handle := h + 1\<rparr>)"

text \<open>A mutation: the document in memory changes and \<^verbatim>\<open>writeSoon\<close> is called.\<close>

definition mutate :: "nat \<Rightarrow> 'd \<Rightarrow> 'd persist \<Rightarrow> 'd persist" where
  "mutate now v s = writeSoon now (s\<lparr>mem := v\<rparr>)"

text \<open>
  The timer \<open>h\<close> fires, at a time \<open>now\<close> not before it is due: its callback enters
  \<^verbatim>\<open>atomicWriteJSON\<close>, which serializes the document of that moment and suspends at
  the write of the temporary file.
\<close>

definition timer_fires :: "nat \<Rightarrow> nat \<Rightarrow> 'd persist \<Rightarrow> 'd persist option" where
  "timer_fires h now s =
     (case map_of (armed s) h of
        None \<Rightarrow> None
      | Some due \<Rightarrow>
          if due \<le> now
          then Some (s\<lparr>armed := filter (\<lambda>(h', due'). h' \<noteq> h) (armed s),
                        writing := writing s @ [mem s]\<rparr>)
          else None)"

text \<open>
  The oldest suspended callback resumes: the temporary file is renamed over the target,
  and the \<^verbatim>\<open>finally\<close> block sets \<^verbatim>\<open>_writeTimer\<close> to \<^verbatim>\<open>null\<close>.
\<close>

definition write_done :: "'d persist \<Rightarrow> 'd persist option" where
  "write_done s =
     (case writing s of
        [] \<Rightarrow> None
      | json # rest \<Rightarrow>
          Some (s\<lparr>disk := json, writing := rest, disk_writes := disk_writes s + 1,
                  writeTimer := None\<rparr>))"

datatype 'd event = Mutate nat 'd | Fire nat nat | Done

fun step :: "'d event \<Rightarrow> 'd persist \<Rightarrow> 'd persist option" where
  "step (Mutate now v) s = Some (mutate now v s)"
| "step (Fire h now) s = timer_fires h now s"
| "step Done s = write_done s"

fun run :: "'d event list \<Rightarrow> 'd persist \<Rightarrow> 'd persist option" where
  "run [] s = Some s"
| "run (e # es) s = (case step e s of None \<Rightarrow> None | Some s' \<Rightarrow> run es s')"

text \<open>The state at rest: the disk holds the document, no timer, no write in progress.\<close>

definition idle :: "'d \<Rightarrow> 'd persist" where
  "idle v = \<lparr>mem = v, disk = v, writeTimer = None, armed = [], writing = [],
             disk_writes = 0, next_handle = 0\<rparr>"

section \<open>Theorems\<close>

subsection \<open>The retrying HTTP client\<close>










subsection \<open>Objects\<close>

lemma obj_set_empty: "obj_set k v [] = [(k, v)]"
  by (simp add: obj_set_def)

lemma map_of_obj_insert_index:
  "map_of (obj_insert_index k v ob) = (map_of ob)(k \<mapsto> v)" if "map_of ob k = None"
  using that
proof (induction ob)
  case Nil
  then show ?case by simp
next
  case (Cons e ob)
  obtain k' v' where e: "e = (k', v')" by (cases e)
  from Cons.prems e have ne: "k' \<noteq> k" and none: "map_of ob k = None"
    by (auto split: if_splits)
  show ?case
    using Cons.IH[OF none] ne e by (auto simp: fun_upd_twist)
qed

lemma map_of_obj_update:
  "map_of (map (\<lambda>(k', v'). if k' = k then (k', v) else (k', v')) ob) x =
     (if x = k then map_option (\<lambda>_. v) (map_of ob x) else map_of ob x)"
  by (induction ob) auto

lemma map_of_obj_set: "map_of (obj_set k v ob) = (map_of ob)(k \<mapsto> v)"
proof (cases "map_of ob k = None")
  case True
  then show ?thesis
    by (auto simp: obj_set_def map_of_obj_insert_index fun_eq_iff map_add_def split: option.split)
next
  case False
  then show ?thesis
    by (auto simp: obj_set_def map_of_obj_update fun_eq_iff)
qed

lemma obj_get_obj_set: "obj_get (obj_set k v ob) k' = (if k' = k then Some v else obj_get ob k')"
  by (simp add: obj_get_def map_of_obj_set)

subsection \<open>Authentication attempts\<close>

lemma buildAuthAttempts_length: "length (buildAuthAttempts p extraHeaders) = 1"
  by (simp add: buildAuthAttempts_def Let_def split: option.split)

lemma buildAuthAttempts_detected:
  assumes "authConfig p = None"
  shows "buildAuthAttempts p extraHeaders =
    (if str_includes (toLowerCase (baseUrl p)) ''generativelanguage.googleapis.com'' \<or>
        str_includes (toLowerCase (baseUrl p)) ''aiplatform.googleapis.com''
     then [\<lparr>headers = obj_spread [] extraHeaders, params = [(''key'', apiKey p)]\<rparr>]
     else if str_includes (toLowerCase (baseUrl p)) ''anthropic.com''
     then [\<lparr>headers = obj_spread [(''x-api-key'', apiKey p)] extraHeaders, params = []\<rparr>]
     else if str_includes (toLowerCase (baseUrl p)) ''aip.baidubce.com''
     then [\<lparr>headers = obj_spread [] extraHeaders, params = [(''key'', apiKey p)]\<rparr>]
     else [\<lparr>headers = obj_spread [(''Authorization'', ''Bearer '' @ apiKey p)] extraHeaders,
            params = []\<rparr>])"
  using assms
  by (simp add: buildAuthAttempts_def detectAuthMethod_def buildAuthHeaders_def
      buildAuthParams_def obj_set_empty or_else_def Let_def)

text \<open>
  Claim C7, as amended. \<open>buildAuthAttempts\<close> is a function of the provider and the extra
  headers alone. With an explicit \<^verbatim>\<open>authConfig\<close> it gives exactly one attempt, built
  from that configuration. Without one it classifies the lower-cased base URL by
  substring, in this order: the Google Gemini and Vertex domains give the \<^verbatim>\<open>key\<close>
  query parameter, then \<^verbatim>\<open>anthropic.com\<close> gives the \<^verbatim>\<open>x-api-key\<close> header, then the
  Baidu domain gives the \<^verbatim>\<open>key\<close> query parameter, and every other URL gives a bearer
  token. The result always has exactly one attempt, and the family hint
  \<^verbatim>\<open>compatauth\<close> of the caller plays no part in it: no list of three attempts is built.
\<close>

theorem C7_auth_attempts:
  "(\<forall>ac. authConfig p = Some ac \<longrightarrow>
      buildAuthAttempts p extraHeaders =
        [\<lparr>headers = obj_spread (buildAuthHeaders ac) extraHeaders, params = buildAuthParams ac\<rparr>]) \<and>
   (authConfig p = None \<longrightarrow>
      buildAuthAttempts p extraHeaders =
        (if str_includes (toLowerCase (baseUrl p)) ''generativelanguage.googleapis.com'' \<or>
            str_includes (toLowerCase (baseUrl p)) ''aiplatform.googleapis.com''
         then [\<lparr>headers = obj_spread [] extraHeaders, params = [(''key'', apiKey p)]\<rparr>]
         else if str_includes (toLowerCase (baseUrl p)) ''anthropic.com''
         then [\<lparr>headers = obj_spread [(''x-api-key'', apiKey p)] extraHeaders, params = []\<rparr>]
         else if str_includes (toLowerCase (baseUrl p)) ''aip.baidubce.com''
         then [\<lparr>headers = obj_spread [] extraHeaders, params = [(''key'', apiKey p)]\<rparr>]
         else [\<lparr>headers = obj_spread [(''Authorization'', ''Bearer '' @ apiKey p)] extraHeaders,
                params = []\<rparr>])) \<and>
   length (buildAuthAttempts p extraHeaders) = 1 \<and>
   buildAuthAttempts (p\<lparr>compatauth := hint\<rparr>) extraHeaders = buildAuthAttempts p extraHeaders"
proof (intro conjI allI impI)
  fix ac
  assume "authConfig p = Some ac"
  then show "buildAuthAttempts p extraHeaders =
        [\<lparr>headers = obj_spread (buildAuthHeaders ac) extraHeaders, params = buildAuthParams ac\<rparr>]"
    by (simp add: buildAuthAttempts_def)
next
  assume "authConfig p = None"
  then show "buildAuthAttempts p extraHeaders =
        (if str_includes (toLowerCase (baseUrl p)) ''generativelanguage.googleapis.com'' \<or>
            str_includes (toLowerCase (baseUrl p)) ''aiplatform.googleapis.com''
         then [\<lparr>headers = obj_spread [] extraHeaders, params = [(''key'', apiKey p)]\<rparr>]
         else if str_includes (toLowerCase (baseUrl p)) ''anthropic.com''
         then [\<lparr>headers = obj_spread [(''x-api-key'', apiKey p)] extraHeaders, params = []\<rparr>]
         else if str_includes (toLowerCase (baseUrl p)) ''aip.baidubce.com''
         then [\<lparr>headers = obj_spread [] extraHeaders, params = [(''key'', apiKey p)]\<rparr>]
         else [\<lparr>headers = obj_spread [(''Authorization'', ''Bearer '' @ apiKey p)] extraHeaders,
                params = []\<rparr>])"
    by (rule buildAuthAttempts_detected)
next
  show "length (buildAuthAttempts p extraHeaders) = 1"
    by (rule buildAuthAttempts_length)
next
  show "buildAuthAttempts (p\<lparr>compatauth := hint\<rparr>) extraHeaders = buildAuthAttempts p extraHeaders"
    by (simp add: buildAuthAttempts_def Let_def split: option.split)
qed

text \<open>
  At a concrete input: a provider at the Anthropic domain (written with capitals), no
  explicit configuration, with the \<^verbatim>\<open>anthropic-version\<close> header of the Claude adapter.
\<close>

theorem C7_auth_attempts_witness:
  "buildAuthAttempts
     \<lparr>apiKey = ''sk-1'', baseUrl = ''https://API.Anthropic.com'', compatauth = None,
      authMethod = None, authConfig = None\<rparr>
     [(''anthropic-version'', ''2023-06-01'')]
   = [\<lparr>headers = [(''x-api-key'', ''sk-1''), (''anthropic-version'', ''2023-06-01'')],
       params = []\<rparr>]"
  using C7_auth_attempts[of
     "\<lparr>apiKey = ''sk-1'', baseUrl = ''https://API.Anthropic.com'', compatauth = None,
      authMethod = None, authConfig = None\<rparr>"
     "[(''anthropic-version'', ''2023-06-01'')]" None]
  by (simp add: toLowerCase_def lower_char_def obj_spread_def obj_set_def is_array_index_def
      is_digit_def)

text \<open>
  The claim as stated fails. A provider with a generic base URL, no explicit
  configuration and no family hint gets the single bearer attempt, not the list
  bearer, \<^verbatim>\<open>x-api-key\<close>, \<^verbatim>\<open>key\<close>.
\<close>

theorem C7_three_attempts_counterexample:
  "buildAuthAttempts
     \<lparr>apiKey = ''sk-1'', baseUrl = ''https://api.acme.ai'', compatauth = None,
      authMethod = None, authConfig = None\<rparr> []
   = [\<lparr>headers = [(''Authorization'', ''Bearer sk-1'')], params = []\<rparr>] \<and>
   buildAuthAttempts
     \<lparr>apiKey = ''sk-1'', baseUrl = ''https://api.acme.ai'', compatauth = None,
      authMethod = None, authConfig = None\<rparr> []
   \<noteq> three_attempts
     \<lparr>apiKey = ''sk-1'', baseUrl = ''https://api.acme.ai'', compatauth = None,
      authMethod = None, authConfig = None\<rparr> []"
  by (simp add: buildAuthAttempts_def detectAuthMethod_def buildAuthHeaders_def
      buildAuthParams_def three_attempts_def toLowerCase_def lower_char_def obj_spread_def
      obj_set_def is_array_index_def is_digit_def Let_def)

subsection \<open>Reads and writes of objects\<close>

lemma proto_in_proto_keys: "''__proto__'' \<in> set proto_keys"
  by (simp add: proto_keys_def)

lemma js_lookup_obj_set:
  "js_lookup (obj_set k v ob) k' = (if k' = k then Own v else js_lookup ob k')"
  by (simp add: js_lookup_def map_of_obj_set)

lemma js_assign_obj_set:
  "js_lookup ob k \<noteq> Inherited \<Longrightarrow> js_assign k v ob = obj_set k v ob"
  using proto_in_proto_keys
  by (auto simp: js_assign_def js_lookup_def split: option.splits if_splits)

lemma js_lookup_js_assign_other:
  "k' \<noteq> k \<Longrightarrow> js_lookup (js_assign k v ob) k' = js_lookup ob k'"
  by (simp add: js_assign_def js_lookup_obj_set)

lemma js_lookup_js_assign_same:
  "js_lookup ob k \<noteq> Inherited \<Longrightarrow> js_lookup (js_assign k v ob) k = Own v"
  by (simp add: js_assign_obj_set js_lookup_obj_set)

lemma js_lookup_Own_map_of: "js_lookup ob k = Own v \<longleftrightarrow> map_of ob k = Some v"
  by (auto simp: js_lookup_def split: option.splits)

subsection \<open>The compat resolver\<close>

lemma js_lookup_merge_missing:
  "js_lookup (merge_missing found mm) k =
     (case js_lookup mm k of
        Missing \<Rightarrow> (case map_of found k of Some v \<Rightarrow> Own v | None \<Rightarrow> Missing)
      | Own c \<Rightarrow> Own c
      | Inherited \<Rightarrow> Inherited)"
  unfolding merge_missing_def
proof (induction found arbitrary: mm)
  case Nil
  show ?case by (simp split: lookup.split)
next
  case (Cons e found)
  obtain k0 v0 where e: "e = (k0, v0)" by (cases e)
  show ?case
  proof (cases "js_lookup mm k0 = Missing")
    case False
    then show ?thesis
      unfolding e using Cons.IH[of mm]
      by (auto split: lookup.split option.split)
  next
    case True
    then have a: "js_assign k0 v0 mm = obj_set k0 v0 mm"
      by (simp add: js_assign_obj_set)
    show ?thesis
      unfolding e using Cons.IH[of "obj_set k0 v0 mm"] True
      by (auto simp: a js_lookup_obj_set split: lookup.split option.split)
  qed
qed

lemma override_db_fields [simp]:
  "override (d\<lparr>providers := ps\<rparr>) n k = override d n k"
  "override (d\<lparr>catalog_map := cm\<rparr>) n k = override d n k"
  "override (d\<lparr>catalog_updatedAt := t\<rparr>) n k = override d n k"
  "override (d\<lparr>dataVersion := dv\<rparr>) n k = override d n k"
  by (simp_all add: override_def)

lemma db_finish_resolving [simp]: "db (finish_resolving name ml g) = db g"
  by (simp add: finish_resolving_def)

lemma override_by_modelCompat:
  "modelCompat d' = obj_set name mm (modelCompat d) \<Longrightarrow>
   override d' n k = (if n = name then js_lookup mm k else override d n k)"
  by (simp add: override_def js_lookup_obj_set)

text \<open>What the task of the probe leaves in \<^verbatim>\<open>modelCompat\<close> when it answers.\<close>

lemma task_ok_Some:
  assumes "task_ok name ml byName res now g = Some r"
  defines "mm0 \<equiv> (case js_lookup (modelCompat (db g)) name of Own mm \<Rightarrow> mm | _ \<Rightarrow> [])"
  defines "mm1 \<equiv> merge_missing (modelMap res) mm0"
  shows "js_lookup (modelCompat (db g)) name \<noteq> Inherited"
    and "js_lookup mm1 ml \<noteq> Inherited"
    and "fst r = (case js_lookup mm1 ml of
                    Own c \<Rightarrow> c
                  | _ \<Rightarrow> (case compat res of Some c \<Rightarrow> c | None \<Rightarrow> byName))"
    and "modelCompat (db (fst (snd r))) =
           obj_set name (if js_lookup mm1 ml = Missing then obj_set ml (fst r) mm1 else mm1)
             (modelCompat (db g))"
    and "snd (snd r) = [WriteSoon]"
proof -
  from assms(1) show n: "js_lookup (modelCompat (db g)) name \<noteq> Inherited"
    and m: "js_lookup mm1 ml \<noteq> Inherited"
    by (auto simp: task_ok_def Let_def mm0_def mm1_def split: if_splits)
  from assms(1) n m show v: "fst r = (case js_lookup mm1 ml of
                    Own c \<Rightarrow> c
                  | _ \<Rightarrow> (case compat res of Some c \<Rightarrow> c | None \<Rightarrow> byName))"
    by (auto simp: task_ok_def Let_def mm0_def mm1_def split: if_splits)
  from assms(1) n m show "snd (snd r) = [WriteSoon]"
    by (auto simp: task_ok_def Let_def mm0_def mm1_def split: if_splits)
  from assms(1) n m have "modelCompat (db (fst (snd r))) =
      js_assign name (if js_lookup mm1 ml = Missing then js_assign ml (fst r) mm1 else mm1)
        (modelCompat (db g))"
    by (auto simp: task_ok_def Let_def mm0_def mm1_def split: if_splits)
  with n m show "modelCompat (db (fst (snd r))) =
           obj_set name (if js_lookup mm1 ml = Missing then obj_set ml (fst r) mm1 else mm1)
             (modelCompat (db g))"
    by (simp add: js_assign_obj_set)
qed

lemma task_ok_keeps_override:
  assumes o: "override (db g) n k = Own c"
    and r: "task_ok name ml byName res now g = Some r"
  shows "override (db (fst (snd r))) n k = Own c"
proof (cases "n = name")
  case False
  then show ?thesis
    using o override_by_modelCompat[OF task_ok_Some(4)[OF r]] by simp
next
  case True
  define mm0 where "mm0 = (case js_lookup (modelCompat (db g)) name of Own mm \<Rightarrow> mm | _ \<Rightarrow> [])"
  define mm1 where "mm1 = merge_missing (modelMap res) mm0"
  from o True have mm0: "js_lookup mm0 k = Own c"
    by (auto simp: override_def mm0_def split: lookup.splits)
  then have mm1: "js_lookup mm1 k = Own c"
    by (simp add: mm1_def js_lookup_merge_missing)
  have ov: "override (db (fst (snd r))) name k =
      js_lookup (if js_lookup mm1 ml = Missing then obj_set ml (fst r) mm1 else mm1) k"
    unfolding mm1_def mm0_def
    using override_by_modelCompat[OF task_ok_Some(4)[OF r], of name k] by simp
  have "js_lookup (if js_lookup mm1 ml = Missing then obj_set ml (fst r) mm1 else mm1) k = Own c"
    using mm1 by (auto simp: js_lookup_obj_set)
  then show ?thesis
    using True by (simp add: ov)
qed

lemma task_failed_Some:
  assumes "task_failed name ml byName g = Some r"
  defines "mm0 \<equiv> (case js_lookup (modelCompat (db g)) name of Own mm \<Rightarrow> mm | _ \<Rightarrow> [])"
  shows "js_lookup (modelCompat (db g)) name \<noteq> Inherited"
    and "fst r = byName"
    and "modelCompat (db (fst (snd r))) =
           obj_set name (if js_lookup mm0 ml = Missing then obj_set ml byName mm0 else mm0)
             (modelCompat (db g))"
proof -
  from assms(1) show n: "js_lookup (modelCompat (db g)) name \<noteq> Inherited"
    by (auto simp: task_failed_def Let_def split: if_splits)
  from assms(1) show "fst r = byName"
    by (auto simp: task_failed_def Let_def split: if_splits)
  from assms(1) n have "modelCompat (db (fst (snd r))) =
      js_assign name (if js_lookup mm0 ml = Missing then js_assign ml byName mm0 else mm0)
        (modelCompat (db g))"
    by (auto simp: task_failed_def Let_def mm0_def split: if_splits)
  with n show "modelCompat (db (fst (snd r))) =
           obj_set name (if js_lookup mm0 ml = Missing then obj_set ml byName mm0 else mm0)
             (modelCompat (db g))"
    by (simp add: js_assign_obj_set)
qed

lemma task_failed_keeps_override:
  assumes o: "override (db g) n k = Own c"
    and r: "task_failed name ml byName g = Some r"
  shows "override (db (fst (snd r))) n k = Own c"
proof (cases "n = name")
  case False
  then show ?thesis
    using o override_by_modelCompat[OF task_failed_Some(3)[OF r]] by simp
next
  case True
  define mm0 where "mm0 = (case js_lookup (modelCompat (db g)) name of Own mm \<Rightarrow> mm | _ \<Rightarrow> [])"
  from o True have mm0: "js_lookup mm0 k = Own c"
    by (auto simp: override_def mm0_def split: lookup.splits)
  have ov: "override (db (fst (snd r))) name k =
      js_lookup (if js_lookup mm0 ml = Missing then obj_set ml byName mm0 else mm0) k"
    unfolding mm0_def
    using override_by_modelCompat[OF task_failed_Some(3)[OF r], of name k] by simp
  have "js_lookup (if js_lookup mm0 ml = Missing then obj_set ml byName mm0 else mm0) k = Own c"
    using mm0 by (auto simp: js_lookup_obj_set)
  then show ?thesis
    using True by (simp add: ov)
qed

lemma resolve_task_keeps_override:
  "override (db g) n k = Own c \<Longrightarrow> resolve_task name ml byName pr now g = Some r \<Longrightarrow>
   override (db (fst (snd r))) n k = Own c"
  by (cases pr) (auto simp: resolve_task_def task_ok_keeps_override task_failed_keeps_override)

lemma refresh_work_keeps_override:
  "override (fst (refresh_work lc listing_of now d)) n k = override d n k"
  by (simp add: refresh_work_def Let_def)

lemma refreshModelCatalog_keeps_override:
  "override (db (fst (refreshModelCatalog lc listing_of now force g))) n k = override (db g) n k"
  by (simp add: refreshModelCatalog_def refresh_work_def Let_def)

lemma resolveCompat_override_hit:
  "override (db g) name (lc model) = Own c \<Longrightarrow>
   resolveCompat lc name model p pr awaited now g = Some (c, g, [])"
  by (simp add: resolveCompat_def resolveCompat_begin_def Let_def)

lemma resolveCompat_keeps_override:
  assumes o: "override (db g) n k = Own c"
    and r: "resolveCompat lc name model p pr awaited now g = Some r"
  shows "override (db (fst (snd r))) n k = Own c"
proof (cases "resolveCompat_begin lc name model p g")
  case (Resolved x)
  with o r show ?thesis by (auto simp: resolveCompat_def)
next
  case Foreign
  with r show ?thesis by (simp add: resolveCompat_def)
next
  case Awaits
  with o r show ?thesis by (auto simp: resolveCompat_def)
next
  case (Started byName g1)
  then have "db g1 = db g"
    by (auto simp: resolveCompat_begin_def Let_def split: lookup.splits if_splits)
  with o have o1: "override (db g1) n k = Own c" by simp
  from r Started obtain r1 where r1: "resolve_task name (lc model) byName pr now g1 = Some r1"
    and rr: "fst (snd r) = fst (snd r1)"
    by (auto simp: resolveCompat_def split: option.splits prod.splits)
  from resolve_task_keeps_override[OF o1 r1] rr show ?thesis by simp
qed

subsection \<open>The migration of \<^verbatim>\<open>Store.init\<close>\<close>

lemma obj_set_at:
  assumes "k \<notin> fst ` set pre"
  shows "obj_set k v (pre @ (k, c) # rest) = pre @ (k, v) # map (\<lambda>(k', v'). if k' = k then (k', v) else (k', v')) rest"
proof -
  from assms have "map (\<lambda>(k', v'). if k' = k then (k', v) else (k', v')) pre = pre"
    by (intro map_idI) (auto simp: image_iff)
  moreover from assms have "map_of (pre @ (k, c) # rest) k = Some c"
    by (simp add: map_add_def map_of_eq_None_iff[THEN iffD2] split: option.split)
  ultimately show ?thesis
    by (simp add: obj_set_def)
qed

lemma obj_set_at_distinct:
  assumes "k \<notin> fst ` set pre" and "k \<notin> fst ` set rest"
  shows "obj_set k v (pre @ (k, c) # rest) = pre @ (k, v) # rest"
proof -
  from assms(2) have "map (\<lambda>(k', v'). if k' = k then (k', v) else (k', v')) rest = rest"
    by (intro map_idI) (auto simp: image_iff)
  with obj_set_at[OF assms(1), of v c rest] show ?thesis by simp
qed

lemma js_assign_at_distinct:
  assumes "k \<notin> fst ` set pre" and "k \<notin> fst ` set rest"
  shows "js_assign k v (pre @ (k, c) # rest) = pre @ (k, v) # rest"
proof -
  from assms(1) have "map_of (pre @ (k, c) # rest) k = Some c"
    by (simp add: map_add_def map_of_eq_None_iff[THEN iffD2] split: option.split)
  then show ?thesis
    by (simp add: js_assign_def obj_set_at_distinct[OF assms])
qed

lemma migrate_entry_at:
  assumes "lc k = k" and "k \<notin> fst ` set pre" and "k \<notin> fst ` set rest"
    and "js_lookup catMap k \<noteq> Inherited"
  shows "migrate_entry lc catMap prov base (Some (pre @ (k, cur) # rest)) (k, cur) =
     Some (pre @
       (k, case js_lookup catMap k of
             Own c \<Rightarrow> c
           | _ \<Rightarrow> if cur = openai \<and> (detectCompat lc prov k base = gemini \<or>
                                     detectCompat lc prov k base = claude)
                  then detectCompat lc prov k base else cur) # rest)"
  using assms(1,4)
  by (auto simp: migrate_entry_def Let_def js_assign_at_distinct[OF assms(2,3)] split: lookup.splits)

lemma foldl_migrate_entry_None: "foldl (migrate_entry lc catMap prov base) None xs = None"
  by (induction xs) (simp_all add: migrate_entry_def)

lemma foldl_migrate_entry_Some:
  "foldl (migrate_entry lc catMap prov base) acc xs = Some d \<Longrightarrow> (k0, cur) \<in> set xs \<Longrightarrow>
   js_lookup catMap (lc k0) \<noteq> Inherited"
proof (induction xs arbitrary: acc)
  case Nil
  then show ?case by simp
next
  case (Cons e xs)
  show ?case
  proof (cases "migrate_entry lc catMap prov base acc e")
    case None
    with Cons.prems(1) show ?thesis by (simp add: foldl_migrate_entry_None)
  next
    case (Some d1)
    show ?thesis
    proof (cases "(k0, cur) = e")
      case True
      with Some show ?thesis
        by (auto simp: migrate_entry_def Let_def split: option.splits lookup.splits)
    next
      case False
      with Cons.prems(2) have "(k0, cur) \<in> set xs" by auto
      with Cons.IH[of "Some d1"] Cons.prems(1) Some show ?thesis by simp
    qed
  qed
qed

lemma foldl_migrate_entry_map:
  assumes "\<forall>k\<in>fst ` set suf. lc k = k \<and> js_lookup catMap k \<noteq> Inherited"
  shows "distinct (map fst (pre @ suf)) \<Longrightarrow>
     foldl (migrate_entry lc catMap prov base) (Some (pre @ suf)) suf =
     Some (pre @ map (\<lambda>(k, cur).
       (k, case js_lookup catMap k of
             Own c \<Rightarrow> c
           | _ \<Rightarrow> if cur = openai \<and> (detectCompat lc prov k base = gemini \<or>
                                     detectCompat lc prov k base = claude)
                  then detectCompat lc prov k base else cur)) suf)"
  using assms
proof (induction suf arbitrary: pre)
  case Nil
  show ?case by simp
next
  case (Cons e suf)
  obtain k cur where e: "e = (k, cur)" by (cases e)
  let ?v = "case js_lookup catMap k of
             Own c \<Rightarrow> c
           | _ \<Rightarrow> if cur = openai \<and> (detectCompat lc prov k base = gemini \<or>
                                     detectCompat lc prov k base = claude)
                  then detectCompat lc prov k base else cur"
  from Cons.prems e have k: "lc k = k" "js_lookup catMap k \<noteq> Inherited"
    and np: "k \<notin> fst ` set pre" and nr: "k \<notin> fst ` set suf"
    by auto
  have st: "migrate_entry lc catMap prov base (Some (pre @ (k, cur) # suf)) (k, cur) =
      Some (pre @ (k, ?v) # suf)"
    using k(1) np nr k(2) by (rule migrate_entry_at)
  have d: "distinct (map fst ((pre @ [(k, ?v)]) @ suf))"
    using Cons.prems(1) e by auto
  have a: "\<forall>k\<in>fst ` set suf. lc k = k \<and> js_lookup catMap k \<noteq> Inherited"
    using Cons.prems(2) by auto
  from Cons.IH[OF d a] show ?case
    by (simp add: e st)
qed

lemma migrate_dict_map:
  assumes "migrate_dict lc catMap prov base dict = Some d"
    and "distinct (map fst dict)" and "\<forall>k\<in>fst ` set dict. lc k = k"
  shows "d = map (\<lambda>(k, cur).
       (k, case js_lookup catMap k of
             Own c \<Rightarrow> c
           | _ \<Rightarrow> if cur = openai \<and> (detectCompat lc prov k base = gemini \<or>
                                     detectCompat lc prov k base = claude)
                  then detectCompat lc prov k base else cur)) dict"
proof -
  have "\<forall>k\<in>fst ` set dict. lc k = k \<and> js_lookup catMap k \<noteq> Inherited"
  proof
    fix k assume "k \<in> fst ` set dict"
    then obtain cur where m: "(k, cur) \<in> set dict" by auto
    from assms(3) m have l: "lc k = k" by force
    from foldl_migrate_entry_Some[OF assms(1)[unfolded migrate_dict_def] m] l
    show "lc k = k \<and> js_lookup catMap k \<noteq> Inherited" by simp
  qed
  from foldl_migrate_entry_map[OF this, of "[]" prov base] assms(1,2) show ?thesis
    by (simp add: migrate_dict_def)
qed

lemma map_of_map_value:
  "map_of (map (\<lambda>(k, v). (k, f k v)) xs) k = map_option (f k) (map_of xs k)"
  by (induction xs) auto

lemma migrate_all_lookup:
  "migrate_all lc catMap provs mc = Some mc' \<Longrightarrow> map_of mc n = Some mm \<Longrightarrow>
   \<exists>mm'. migrate_dict lc catMap n (base_of provs n) mm = Some mm' \<and> map_of mc' n = Some mm'"
proof (induction mc arbitrary: mc')
  case Nil
  then show ?case by simp
next
  case (Cons e mc)
  obtain prov m0 where e: "e = (prov, m0)" by (cases e)
  from Cons.prems(1) e obtain m1 rest' where
    m1: "migrate_dict lc catMap prov (base_of provs prov) m0 = Some m1"
    and rest: "migrate_all lc catMap provs mc = Some rest'"
    and mc': "mc' = (prov, m1) # rest'"
    by (auto split: option.splits)
  show ?case
  proof (cases "n = prov")
    case True
    with Cons.prems(2) e have "mm = m0" by simp
    with True m1 mc' show ?thesis by simp
  next
    case False
    with Cons.prems(2) e have "map_of mc n = Some mm" by simp
    from Cons.IH[OF rest this] False mc' show ?thesis by simp
  qed
qed

lemma migration_current:
  "3 \<le> dataVersion (db g) \<Longrightarrow> Store_init_migration lc listing_of now g = Some (g, [WriteSoon])"
  by (simp add: Store_init_migration_def)

lemma providers_refreshModelCatalog:
  "providers (db (fst (refreshModelCatalog lc listing_of now force g))) = providers (db g)"
  "modelCompat (db (fst (refreshModelCatalog lc listing_of now force g))) = modelCompat (db g)"
  by (simp_all add: refreshModelCatalog_def refresh_work_def Let_def)

lemma migration_entry:
  assumes v: "dataVersion (db g) < 3"
    and r: "Store_init_migration lc listing_of now g = Some (g', effs)"
    and mm: "js_lookup (modelCompat (db g)) n = Own mm"
    and d: "distinct (map fst mm)" and l: "\<forall>k0\<in>fst ` set mm. lc k0 = k0"
    and cur: "js_lookup mm k = Own cur"
  shows "override (db g') n k =
     Own (case js_lookup (catalog_map (db (fst (refreshModelCatalog lc listing_of now True g)))) k of
            Own c \<Rightarrow> c
          | _ \<Rightarrow> if cur = openai \<and>
                    (detectCompat lc n k (base_of (providers (db g)) n) = gemini \<or>
                     detectCompat lc n k (base_of (providers (db g)) n) = claude)
                 then detectCompat lc n k (base_of (providers (db g)) n) else cur)"
    and "dataVersion (db g') = 3"
proof -
  let ?g1 = "fst (refreshModelCatalog lc listing_of now True g)"
  let ?cat = "catalog_map (db ?g1)"
  obtain g1 effs1 where rf: "refreshModelCatalog lc listing_of now True g = (g1, effs1)"
    by (cases "refreshModelCatalog lc listing_of now True g")
  then have g1: "g1 = ?g1" by simp
  from r v rf obtain mc where
    mc1: "migrate_all lc (catalog_map (db g1)) (providers (db g1)) (modelCompat (db g1)) = Some mc"
    and g': "modelCompat (db g') = mc" "dataVersion (db g') = 3"
    by (auto simp: Store_init_migration_def split: option.splits)
  from mc1 have mc: "migrate_all lc ?cat (providers (db g)) (modelCompat (db g)) = Some mc"
    by (simp add: g1 providers_refreshModelCatalog)
  show "dataVersion (db g') = 3" by (rule g'(2))
  from mm have m0: "map_of (modelCompat (db g)) n = Some mm"
    by (simp add: js_lookup_Own_map_of)
  from migrate_all_lookup[OF mc m0] obtain mm' where
    md: "migrate_dict lc ?cat n (base_of (providers (db g)) n) mm = Some mm'"
    and m1: "map_of mc n = Some mm'"
    by blast
  note eq = migrate_dict_map[OF md d l]
  from cur have "map_of mm k = Some cur" by (simp add: js_lookup_Own_map_of)
  then have "map_of mm' k =
     Some (case js_lookup ?cat k of
            Own c \<Rightarrow> c
          | _ \<Rightarrow> if cur = openai \<and>
                    (detectCompat lc n k (base_of (providers (db g)) n) = gemini \<or>
                     detectCompat lc n k (base_of (providers (db g)) n) = claude)
                 then detectCompat lc n k (base_of (providers (db g)) n) else cur)"
    unfolding eq by (simp add: map_of_map_value)
  then show "override (db g') n k =
     Own (case js_lookup ?cat k of
            Own c \<Rightarrow> c
          | _ \<Rightarrow> if cur = openai \<and>
                    (detectCompat lc n k (base_of (providers (db g)) n) = gemini \<or>
                     detectCompat lc n k (base_of (providers (db g)) n) = claude)
                 then detectCompat lc n k (base_of (providers (db g)) n) else cur)"
    using m1 g'(1) by (simp add: override_def js_lookup_def)
qed

text \<open>For names that are no property names of \<^verbatim>\<open>Object.prototype\<close> every function is
  followed to its end.\<close>

lemma js_lookup_not_proto: "k \<notin> set proto_keys \<Longrightarrow> js_lookup ob k \<noteq> Inherited"
  by (simp add: js_lookup_def split: option.split)

lemma resolve_task_total:
  assumes "js_lookup (modelCompat (db g)) name \<noteq> Inherited" and "ml \<notin> set proto_keys"
  shows "\<exists>r. resolve_task name ml byName pr now g = Some r"
  using assms(1) js_lookup_not_proto[OF assms(2)]
  by (cases pr) (auto simp: resolve_task_def task_ok_def task_failed_def Let_def)

lemma resolveCompat_total:
  assumes "name \<notin> set proto_keys" and "lc model \<notin> set proto_keys"
    and "lc (lc model) \<notin> set proto_keys"
  shows "\<exists>r. resolveCompat lc name model p pr awaited now g = Some r"
proof (cases "resolveCompat_begin lc name model p g")
  case (Resolved c)
  then show ?thesis by (simp add: resolveCompat_def)
next
  case Foreign
  have "override (db g) name (lc model) \<noteq> Inherited"
    using js_lookup_not_proto[OF assms(1)] js_lookup_not_proto[OF assms(2)]
    by (auto simp: override_def split: lookup.split)
  moreover have "getCompatFromCatalog lc (db g) (lc model) \<noteq> Inherited"
    using js_lookup_not_proto[OF assms(3)] by (simp add: getCompatFromCatalog_def)
  ultimately show ?thesis
    using Foreign by (auto simp: resolveCompat_begin_def Let_def split: lookup.splits if_splits)
next
  case Awaits
  then show ?thesis by (simp add: resolveCompat_def)
next
  case (Started byName g1)
  then have "db g1 = db g"
    by (auto simp: resolveCompat_begin_def Let_def split: lookup.splits if_splits)
  with js_lookup_not_proto[OF assms(1), of "modelCompat (db g)"]
  have "js_lookup (modelCompat (db g1)) name \<noteq> Inherited" by simp
  from resolve_task_total[OF this assms(2), of byName pr now] Started show ?thesis
    by (auto simp: resolveCompat_def)
qed

lemma migrate_dict_total:
  assumes "\<forall>k0\<in>fst ` set xs. lc k0 \<notin> set proto_keys"
  shows "\<exists>d'. foldl (migrate_entry lc catMap prov base) (Some d) xs = Some d'"
  using assms
proof (induction xs arbitrary: d)
  case Nil
  show ?case by simp
next
  case (Cons e xs)
  obtain k0 cur where e: "e = (k0, cur)" by (cases e)
  from Cons.prems e have "js_lookup catMap (lc k0) \<noteq> Inherited"
    by (simp add: js_lookup_not_proto)
  then have "\<exists>d1. migrate_entry lc catMap prov base (Some d) e = Some d1"
    by (cases "js_lookup catMap (lc k0)") (simp_all add: e migrate_entry_def Let_def)
  then obtain d1 where "migrate_entry lc catMap prov base (Some d) e = Some d1" ..
  moreover from Cons.prems have "\<forall>k0\<in>fst ` set xs. lc k0 \<notin> set proto_keys" by simp
  ultimately show ?case
    using Cons.IH[of d1] by simp
qed

lemma migrate_all_total:
  assumes "\<forall>mm\<in>snd ` set mc. \<forall>k0\<in>fst ` set mm. lc k0 \<notin> set proto_keys"
  shows "\<exists>mc'. migrate_all lc catMap provs mc = Some mc'"
  using assms
proof (induction mc)
  case Nil
  show ?case by simp
next
  case (Cons e mc)
  obtain prov mm where e: "e = (prov, mm)" by (cases e)
  from Cons.prems e have "\<forall>k0\<in>fst ` set mm. lc k0 \<notin> set proto_keys" by simp
  from migrate_dict_total[OF this, of catMap prov "base_of provs prov" mm]
  obtain mm' where "migrate_dict lc catMap prov (base_of provs prov) mm = Some mm'"
    by (auto simp: migrate_dict_def)
  moreover from Cons.prems Cons.IH obtain mc' where "migrate_all lc catMap provs mc = Some mc'"
    by auto
  ultimately show ?case by (simp add: e)
qed

lemma migration_total:
  assumes "\<forall>mm\<in>snd ` set (modelCompat (db g)). \<forall>k0\<in>fst ` set mm. lc k0 \<notin> set proto_keys"
  shows "\<exists>r. Store_init_migration lc listing_of now g = Some r"
proof -
  let ?g1 = "fst (refreshModelCatalog lc listing_of now True g)"
  from migrate_all_total[OF assms, of "catalog_map (db ?g1)" "providers (db ?g1)"]
  obtain mc' where "migrate_all lc (catalog_map (db ?g1)) (providers (db ?g1))
      (modelCompat (db ?g1)) = Some mc'"
    by (auto simp: providers_refreshModelCatalog)
  then show ?thesis
    by (auto simp: Store_init_migration_def split: prod.splits)
qed

lemmas js_eval = toLowerCase_def lower_char_def obj_get_def obj_set_def obj_delete_def
  obj_keys_def is_array_index_def is_digit_def dec_value_def js_lookup_def js_assign_def
  proto_keys_def

lemma detectCompat_gpt4o: "detectCompat toLowerCase n ''gpt-4o'' u = openai"
  by (simp add: detectCompat_def js_eval word_ends_def is_word_char_def)

lemma listModelsByAnyCompat_lists_gpt4o:
  "listModelsByAnyCompat toLowerCase lists_gpt4o =
     \<lparr>found_models = [''gpt-4o''], compat = Some openai, compats = [openai, gemini, claude],
      modelMap = [(''gpt-4o'', openai)]\<rparr>"
  by (simp add: listModelsByAnyCompat_def list_step_def add_model_def correct_family_def
      lists_gpt4o_def detectCompat_gpt4o js_eval Let_def)

lemma listModelsByAnyCompat_all_fail:
  "listModelsByAnyCompat lc (\<lambda>c. Inl ()) =
     \<lparr>found_models = [], compat = None, compats = [], modelMap = []\<rparr>"
  by (simp add: listModelsByAnyCompat_def list_step_def obj_keys_def)

text \<open>
  Claim C1, as amended. When an entry for the provider and the lower-cased model stands
  in \<^verbatim>\<open>modelCompat\<close>, \<open>resolveCompat\<close> returns it at once, leaves the state as it is
  and asks for nothing. No step of the resolver or of the catalog refresh replaces an
  entry of \<^verbatim>\<open>modelCompat\<close> by another value: not a whole call of \<open>resolveCompat\<close>
  (catalog lookup, name heuristic, probe), not the task of a probe finishing on any
  later state with any answer or failure, and not a catalog refresh. The migration that
  \<^verbatim>\<open>Store.init\<close> runs on a document of \<^verbatim>\<open>dataVersion\<close> below 3 is the one exception:
  after its forced refresh of the catalog, an entry (of an object whose keys are
  lower-cased) has the family that the catalog gives for the model when it gives one,
  else \<^verbatim>\<open>gemini\<close> or \<^verbatim>\<open>claude\<close> when the entry was \<^verbatim>\<open>openai\<close> and the name heuristic
  says so, and is unchanged otherwise; the version becomes 3. On a document of version 3
  or more the migration changes nothing. The resolver, the task of the probe and the
  migration are followed to their end (they give a result) whenever the provider and
  model names read are no property names of \<^verbatim>\<open>Object.prototype\<close>.
\<close>

theorem C1_override_wins:
  "(override (db g) name (lc model) = Own c \<longrightarrow>
      resolveCompat lc name model p pr awaited now g = Some (c, g, [])) \<and>
   (override (db g) n k = Own c \<longrightarrow>
      (\<forall>r. resolveCompat lc name model p pr awaited now g = Some r \<longrightarrow>
           override (db (fst (snd r))) n k = Own c) \<and>
      (\<forall>r. resolve_task name' ml byName pr now g = Some r \<longrightarrow>
           override (db (fst (snd r))) n k = Own c) \<and>
      override (db (fst (refreshModelCatalog lc listing_of now force g))) n k = Own c \<and>
      override (fst (refresh_work lc listing_of now (db g))) n k = Own c) \<and>
   (name \<notin> set proto_keys \<and> lc model \<notin> set proto_keys \<and> lc (lc model) \<notin> set proto_keys \<longrightarrow>
      (\<exists>r. resolveCompat lc name model p pr awaited now g = Some r)) \<and>
   (name' \<notin> set proto_keys \<and> ml \<notin> set proto_keys \<longrightarrow>
      (\<exists>r. resolve_task name' ml byName pr now g = Some r)) \<and>
   ((\<forall>mm\<in>snd ` set (modelCompat (db g)). \<forall>k0\<in>fst ` set mm. lc k0 \<notin> set proto_keys) \<longrightarrow>
      (\<exists>r. Store_init_migration lc listing_of now g = Some r)) \<and>
   (3 \<le> dataVersion (db g) \<longrightarrow>
      Store_init_migration lc listing_of now g = Some (g, [WriteSoon])) \<and>
   (\<forall>g' effs mm cur.
      dataVersion (db g) < 3 \<and> Store_init_migration lc listing_of now g = Some (g', effs) \<and>
      js_lookup (modelCompat (db g)) n = Own mm \<and> distinct (map fst mm) \<and>
      (\<forall>k0\<in>fst ` set mm. lc k0 = k0) \<and> js_lookup mm k = Own cur \<longrightarrow>
        dataVersion (db g') = 3 \<and>
        override (db g') n k =
          Own (case js_lookup
                      (catalog_map (db (fst (refreshModelCatalog lc listing_of now True g)))) k of
                 Own c' \<Rightarrow> c'
               | _ \<Rightarrow> if cur = openai \<and>
                         (detectCompat lc n k (base_of (providers (db g)) n) = gemini \<or>
                          detectCompat lc n k (base_of (providers (db g)) n) = claude)
                      then detectCompat lc n k (base_of (providers (db g)) n) else cur))"
proof (intro conjI impI allI)
  assume "override (db g) name (lc model) = Own c"
  then show "resolveCompat lc name model p pr awaited now g = Some (c, g, [])"
    by (rule resolveCompat_override_hit)
next
  fix r
  assume "override (db g) n k = Own c" "resolveCompat lc name model p pr awaited now g = Some r"
  then show "override (db (fst (snd r))) n k = Own c"
    by (rule resolveCompat_keeps_override)
next
  fix r
  assume "override (db g) n k = Own c" "resolve_task name' ml byName pr now g = Some r"
  then show "override (db (fst (snd r))) n k = Own c"
    by (rule resolve_task_keeps_override)
next
  assume h: "override (db g) n k = Own c"
  then show "override (db (fst (refreshModelCatalog lc listing_of now force g))) n k = Own c"
    by (simp add: refreshModelCatalog_keeps_override)
  from h show "override (fst (refresh_work lc listing_of now (db g))) n k = Own c"
    by (simp add: refresh_work_keeps_override)
next
  assume "name \<notin> set proto_keys \<and> lc model \<notin> set proto_keys \<and> lc (lc model) \<notin> set proto_keys"
  then show "\<exists>r. resolveCompat lc name model p pr awaited now g = Some r"
    using resolveCompat_total[of name lc model p pr awaited now g] by blast
next
  assume h: "name' \<notin> set proto_keys \<and> ml \<notin> set proto_keys"
  then have "js_lookup (modelCompat (db g)) name' \<noteq> Inherited"
    by (simp add: js_lookup_not_proto)
  with h show "\<exists>r. resolve_task name' ml byName pr now g = Some r"
    using resolve_task_total by blast
next
  assume "\<forall>mm\<in>snd ` set (modelCompat (db g)). \<forall>k0\<in>fst ` set mm. lc k0 \<notin> set proto_keys"
  then show "\<exists>r. Store_init_migration lc listing_of now g = Some r"
    by (rule migration_total)
next
  assume "3 \<le> dataVersion (db g)"
  then show "Store_init_migration lc listing_of now g = Some (g, [WriteSoon])"
    by (rule migration_current)
next
  fix g' effs mm cur
  assume h: "dataVersion (db g) < 3 \<and> Store_init_migration lc listing_of now g = Some (g', effs) \<and>
      js_lookup (modelCompat (db g)) n = Own mm \<and> distinct (map fst mm) \<and>
      (\<forall>k0\<in>fst ` set mm. lc k0 = k0) \<and> js_lookup mm k = Own cur"
  then have v: "dataVersion (db g) < 3"
    and r: "Store_init_migration lc listing_of now g = Some (g', effs)"
    and mm: "js_lookup (modelCompat (db g)) n = Own mm"
    and d: "distinct (map fst mm)" and l: "\<forall>k0\<in>fst ` set mm. lc k0 = k0"
    and cur: "js_lookup mm k = Own cur"
    by blast+
  show "dataVersion (db g') = 3"
    by (rule migration_entry(2)[OF v r mm d l cur])
  show "override (db g') n k =
          Own (case js_lookup
                      (catalog_map (db (fst (refreshModelCatalog lc listing_of now True g)))) k of
                 Own c' \<Rightarrow> c'
               | _ \<Rightarrow> if cur = openai \<and>
                         (detectCompat lc n k (base_of (providers (db g)) n) = gemini \<or>
                          detectCompat lc n k (base_of (providers (db g)) n) = claude)
                      then detectCompat lc n k (base_of (providers (db g)) n) else cur)"
    by (rule migration_entry(1)[OF v r mm d l cur])
qed

text \<open>
  At a concrete input: the stored entry \<^verbatim>\<open>claude\<close> for \<^verbatim>\<open>(acme, gpt-4o)\<close> wins over
  the catalog entry \<^verbatim>\<open>openai\<close>, and it is still there after a forced catalog refresh,
  after a probe that lists the model under \<^verbatim>\<open>openai\<close>, and after the migration on
  this document of version 3.
\<close>

theorem C1_override_wins_witness:
  "resolveCompat toLowerCase ''acme'' ''GPT-4o'' acme
       (ProbeReturns \<lparr>found_models = [''gpt-4o''], compat = Some openai, compats = [openai],
                      modelMap = [(''gpt-4o'', openai)]\<rparr>) openai 1 g_manual
     = Some (claude, g_manual, []) \<and>
   override (db (fst (refreshModelCatalog toLowerCase (\<lambda>n. lists_gpt4o) 1 True g_manual)))
       ''acme'' ''gpt-4o''
     = Own claude \<and>
   map_option (\<lambda>r. override (db (fst (snd r))) ''acme'' ''gpt-4o'')
     (resolve_task ''acme'' ''gpt-4o'' openai
       (ProbeReturns \<lparr>found_models = [''gpt-4o''], compat = Some openai, compats = [openai],
                      modelMap = [(''gpt-4o'', openai)]\<rparr>) 1 g_manual)
     = Some (Own claude) \<and>
   Store_init_migration toLowerCase (\<lambda>n. lists_gpt4o) 1 g_manual = Some (g_manual, [WriteSoon])"
  using C1_override_wins[where g = g_manual and name = "''acme''" and model = "''GPT-4o''"
      and lc = toLowerCase
      and c = claude and p = acme and awaited = openai and now = 1
      and pr = "ProbeReturns \<lparr>found_models = [''gpt-4o''], compat = Some openai,
                 compats = [openai], modelMap = [(''gpt-4o'', openai)]\<rparr>"
      and n = "''acme''" and k = "''gpt-4o''" and name' = "''acme''" and ml = "''gpt-4o''"
      and byName = openai and listing_of = "\<lambda>n. lists_gpt4o" and force = True]
  by (simp add: js_eval override_def g_manual_def empty_db_def resolve_task_def task_ok_def
      merge_missing_def Let_def)

text \<open>
  The claim as stated fails. The document \<open>g_legacy\<close> of version 2 holds the entry
  \<^verbatim>\<open>claude\<close> for \<^verbatim>\<open>(acme, gpt-4o)\<close>, and the provider lists \<^verbatim>\<open>gpt-4o\<close>. The
  migration of \<^verbatim>\<open>Store.init\<close> refreshes the catalog, which then says \<^verbatim>\<open>openai\<close>, and
  replaces the entry by \<^verbatim>\<open>openai\<close>.
\<close>

theorem C1_migration_replaces_override_counterexample:
  "override (db g_legacy) ''acme'' ''gpt-4o'' = Own claude \<and>
   map_option (\<lambda>r. override (db (fst r)) ''acme'' ''gpt-4o'')
     (Store_init_migration toLowerCase (\<lambda>n. lists_gpt4o) 1 g_legacy) = Some (Own openai)"
  by (simp add: Store_init_migration_def refreshModelCatalog_def refresh_work_def
      listModelsByAnyCompat_lists_gpt4o migrate_dict_def migrate_entry_def base_of_def
      override_def g_legacy_def g_manual_def empty_db_def js_eval Let_def)

subsection \<open>The probe of the resolver\<close>

lemma js_lookup_Missing_proto: "js_lookup ob k = Missing \<Longrightarrow> k \<notin> set proto_keys"
  by (auto simp: js_lookup_def split: option.splits if_splits)

lemma resolveCompat_begin_started:
  assumes "override (db g) name (lc model) = Missing"
    and "getCompatFromCatalog lc (db g) (lc model) = Missing"
    and "resolving_key name (lc model) \<notin> set (compatResolving g)"
    and "name \<notin> set (compatResolving g)"
  shows "resolveCompat_begin lc name model p g =
     Started (detectCompat lc name model (baseUrl p))
       (g\<lparr>compatResolving := compatResolving g @ [resolving_key name (lc model)]\<rparr>)"
  using assms by (simp add: resolveCompat_begin_def Let_def resolving_set_def)

lemma override_Missing_entries:
  assumes "override (db g) name ml = Missing" and "ml \<notin> set proto_keys"
  shows "js_lookup (modelCompat (db g)) name \<noteq> Inherited"
    and "js_lookup (case js_lookup (modelCompat (db g)) name of Own mm \<Rightarrow> mm | _ \<Rightarrow> []) ml = Missing"
  using assms by (auto simp: override_def js_lookup_def split: lookup.splits option.splits if_splits)

lemma task_ok_value:
  assumes o: "override (db g) name ml = Missing" and np: "ml \<notin> set proto_keys"
  shows "\<exists>g2. task_ok name ml byName res now g =
            Some (case map_of (modelMap res) ml of
                    Some c \<Rightarrow> c
                  | None \<Rightarrow> (case compat res of Some c \<Rightarrow> c | None \<Rightarrow> byName),
                  g2, [WriteSoon]) \<and>
          override (db g2) name ml =
            Own (case map_of (modelMap res) ml of
                   Some c \<Rightarrow> c
                 | None \<Rightarrow> (case compat res of Some c \<Rightarrow> c | None \<Rightarrow> byName))"
proof -
  define mm0 where "mm0 = (case js_lookup (modelCompat (db g)) name of Own mm \<Rightarrow> mm | _ \<Rightarrow> [])"
  define mm1 where "mm1 = merge_missing (modelMap res) mm0"
  let ?v = "case map_of (modelMap res) ml of
              Some c \<Rightarrow> c
            | None \<Rightarrow> (case compat res of Some c \<Rightarrow> c | None \<Rightarrow> byName)"
  note e = override_Missing_entries[OF o np]
  from e(2) have l1: "js_lookup mm1 ml =
      (case map_of (modelMap res) ml of Some v \<Rightarrow> Own v | None \<Rightarrow> Missing)"
    by (simp add: mm1_def mm0_def js_lookup_merge_missing)
  then have ni: "js_lookup mm1 ml \<noteq> Inherited"
    by (simp split: option.splits)
  from e(1) ni obtain r where r: "task_ok name ml byName res now g = Some r"
    by (auto simp: task_ok_def Let_def mm0_def mm1_def)
  note s = task_ok_Some[OF r, folded mm0_def, folded mm1_def]
  from s(3) l1 have v: "fst r = ?v"
    by (simp split: option.splits)
  have ov: "override (db (fst (snd r))) name ml =
      js_lookup (if js_lookup mm1 ml = Missing then obj_set ml (fst r) mm1 else mm1) ml"
    using override_by_modelCompat[OF s(4), of name ml] by simp
  have st: "override (db (fst (snd r))) name ml = Own ?v"
    unfolding ov using l1 by (auto simp: js_lookup_obj_set v split: option.splits)
  from v s(5) have "r = (?v, fst (snd r), [WriteSoon])"
    by (cases r) auto
  with r st show ?thesis by metis
qed

lemma task_failed_value:
  assumes o: "override (db g) name ml = Missing" and np: "ml \<notin> set proto_keys"
  shows "\<exists>g2. task_failed name ml byName g = Some (byName, g2, [WriteSoon, ScheduleRefresh]) \<and>
          override (db g2) name ml = Own byName"
proof -
  define mm0 where "mm0 = (case js_lookup (modelCompat (db g)) name of Own mm \<Rightarrow> mm | _ \<Rightarrow> [])"
  note e = override_Missing_entries[OF o np, folded mm0_def]
  from e obtain g2 where r: "task_failed name ml byName g = Some (byName, g2, [WriteSoon, ScheduleRefresh])"
    by (auto simp: task_failed_def Let_def mm0_def)
  note s = task_failed_Some[OF r, folded mm0_def]
  have "override (db g2) name ml =
      js_lookup (if js_lookup mm0 ml = Missing then obj_set ml byName mm0 else mm0) ml"
    using override_by_modelCompat[OF s(3), of name ml] by simp
  with e(2) have "override (db g2) name ml = Own byName"
    by (simp add: js_lookup_obj_set)
  with r show ?thesis by blast
qed

lemma resolve_task_failed_probe:
  assumes "override (db g) name ml = Missing" and "ml \<notin> set proto_keys"
    and "pr = ProbeThrows \<or> pr = ProbeReturns (listModelsByAnyCompat lc (\<lambda>c. Inl ()))"
  shows "\<exists>g2 effs. resolve_task name ml byName pr now g = Some (byName, g2, effs) \<and>
          override (db g2) name ml = Own byName"
proof -
  from assms(3) consider "pr = ProbeThrows" | "pr = ProbeReturns (listModelsByAnyCompat lc (\<lambda>c. Inl ()))"
    by blast
  then show ?thesis
  proof cases
    case 1
    with task_failed_value[OF assms(1,2), of byName] show ?thesis
      by (auto simp: resolve_task_def)
  next
    case 2
    with task_ok_value[OF assms(1,2), of byName "listModelsByAnyCompat lc (\<lambda>c. Inl ())" now]
    show ?thesis
      by (auto simp: resolve_task_def listModelsByAnyCompat_all_fail)
  qed
qed

text \<open>
  Claim C5, as amended. For a provider and a model with no entry in \<^verbatim>\<open>modelCompat\<close>,
  none in the catalog and no resolution in flight (\<open>lc\<close>, the lowering of the source,
  changes no text that is already lowered), \<open>resolveCompat\<close> computes the heuristic
  value, schedules the background refresh of the catalog, registers the probe and waits
  for it: the caller gets its answer only when the probe has ended. When the probe
  answers, the value returned is the family that the probe lists for the model, else the
  first family under which the provider listed anything, else the heuristic value. When
  the probe fails (every listing fails, or the call throws) the heuristic value is
  returned and stored as the entry of the model, so that any later call returns it at
  once, without a probe and without any effect.
\<close>

theorem C5_probe_awaited_heuristic_on_failure:
  "override (db g) name (lc model) = Missing \<and>
   getCompatFromCatalog lc (db g) (lc model) = Missing \<and>
   lc (lc model) = lc model \<and>
   resolving_key name (lc model) \<notin> set (compatResolving g) \<and>
   name \<notin> set (compatResolving g) \<longrightarrow>
     resolveCompat_begin lc name model p g =
       Started (detectCompat lc name model (baseUrl p))
         (g\<lparr>compatResolving := compatResolving g @ [resolving_key name (lc model)]\<rparr>) \<and>
     (\<exists>g2. resolveCompat lc name model p (ProbeReturns res) awaited now g =
        Some (case map_of (modelMap res) (lc model) of
                Some c \<Rightarrow> c
              | None \<Rightarrow> (case compat res of
                           Some c \<Rightarrow> c
                         | None \<Rightarrow> detectCompat lc name model (baseUrl p)),
              g2, [ScheduleRefresh, WriteSoon])) \<and>
     (pr = ProbeThrows \<or> pr = ProbeReturns (listModelsByAnyCompat lc (\<lambda>c. Inl ())) \<longrightarrow>
        (\<exists>g2 effs.
           resolveCompat lc name model p pr awaited now g =
             Some (detectCompat lc name model (baseUrl p), g2, effs) \<and>
           override (db g2) name (lc model) = Own (detectCompat lc name model (baseUrl p)) \<and>
           resolveCompat lc name model p pr' awaited' now' g2 =
             Some (detectCompat lc name model (baseUrl p), g2, [])))"
proof (intro impI, elim conjE)
  assume a: "override (db g) name (lc model) = Missing"
    "getCompatFromCatalog lc (db g) (lc model) = Missing"
    "resolving_key name (lc model) \<notin> set (compatResolving g)"
    "name \<notin> set (compatResolving g)"
    and idem: "lc (lc model) = lc model"
  let ?ml = "lc model"
  let ?byName = "detectCompat lc name model (baseUrl p)"
  let ?g1 = "g\<lparr>compatResolving := compatResolving g @ [resolving_key name ?ml]\<rparr>"
  have started: "resolveCompat_begin lc name model p g = Started ?byName ?g1"
    using a by (rule resolveCompat_begin_started)
  from a(2) idem have np: "?ml \<notin> set proto_keys"
    using js_lookup_Missing_proto[of "catalog_map (db g)" ?ml]
    by (simp add: getCompatFromCatalog_def)
  from a(1) have o1: "override (db ?g1) name ?ml = Missing" by simp
  have rc: "resolveCompat lc name model p pr0 awaited now g =
      (case resolve_task name ?ml ?byName pr0 now ?g1 of
         None \<Rightarrow> None
       | Some (c, g2, effs) \<Rightarrow> Some (c, g2, ScheduleRefresh # effs))" for pr0
    by (simp add: resolveCompat_def started)
  have ok: "\<exists>g2. resolveCompat lc name model p (ProbeReturns res) awaited now g =
        Some (case map_of (modelMap res) ?ml of
                Some c \<Rightarrow> c
              | None \<Rightarrow> (case compat res of Some c \<Rightarrow> c | None \<Rightarrow> ?byName),
              g2, [ScheduleRefresh, WriteSoon])"
    using task_ok_value[OF o1 np, of ?byName res now]
    by (auto simp: rc resolve_task_def)
  have failed: "\<exists>g2 effs.
           resolveCompat lc name model p pr awaited now g = Some (?byName, g2, effs) \<and>
           override (db g2) name ?ml = Own ?byName \<and>
           resolveCompat lc name model p pr' awaited' now' g2 = Some (?byName, g2, [])"
    if pr: "pr = ProbeThrows \<or> pr = ProbeReturns (listModelsByAnyCompat lc (\<lambda>c. Inl ()))"
  proof -
    from resolve_task_failed_probe[OF o1 np pr, of ?byName now]
    obtain g2 effs where t: "resolve_task name ?ml ?byName pr now ?g1 = Some (?byName, g2, effs)"
      and o: "override (db g2) name ?ml = Own ?byName"
      by blast
    from t have "resolveCompat lc name model p pr awaited now g =
        Some (?byName, g2, ScheduleRefresh # effs)"
      by (simp add: rc)
    moreover from o have "resolveCompat lc name model p pr' awaited' now' g2 = Some (?byName, g2, [])"
      by (rule resolveCompat_override_hit)
    ultimately show ?thesis using o by blast
  qed
  from started ok failed
  show "resolveCompat_begin lc name model p g = Started ?byName ?g1 \<and>
     (\<exists>g2. resolveCompat lc name model p (ProbeReturns res) awaited now g =
        Some (case map_of (modelMap res) ?ml of
                Some c \<Rightarrow> c
              | None \<Rightarrow> (case compat res of Some c \<Rightarrow> c | None \<Rightarrow> ?byName),
              g2, [ScheduleRefresh, WriteSoon])) \<and>
     (pr = ProbeThrows \<or> pr = ProbeReturns (listModelsByAnyCompat lc (\<lambda>c. Inl ())) \<longrightarrow>
        (\<exists>g2 effs.
           resolveCompat lc name model p pr awaited now g = Some (?byName, g2, effs) \<and>
           override (db g2) name ?ml = Own ?byName \<and>
           resolveCompat lc name model p pr' awaited' now' g2 = Some (?byName, g2, [])))"
    by blast
qed

lemma detectCompat_foo: "detectCompat toLowerCase n ''foo-1'' u = openai"
  by (simp add: detectCompat_def js_eval word_ends_def is_word_char_def)

lemma detectCompat_gemini_pro: "detectCompat toLowerCase n ''gemini-pro'' u = gemini"
  by (simp add: detectCompat_def js_eval word_ends_def is_word_char_def)

text \<open>
  At a concrete input: the provider \<open>acme\<close> with nothing cached and the model
  \<^verbatim>\<open>foo-1\<close>. When every listing fails the heuristic value \<^verbatim>\<open>openai\<close> is the answer and
  is stored.
\<close>

theorem C5_probe_awaited_witness:
  "map_option fst
     (resolveCompat toLowerCase ''acme'' ''foo-1'' acme
        (ProbeReturns (listModelsByAnyCompat toLowerCase (\<lambda>c. Inl ()))) openai 7 g_acme)
     = Some openai \<and>
   map_option (\<lambda>r. override (db (fst (snd r))) ''acme'' ''foo-1'')
     (resolveCompat toLowerCase ''acme'' ''foo-1'' acme
        (ProbeReturns (listModelsByAnyCompat toLowerCase (\<lambda>c. Inl ()))) openai 7 g_acme)
     = Some (Own openai)"
proof -
  have h: "override (db g_acme) ''acme'' (toLowerCase ''foo-1'') = Missing \<and>
     getCompatFromCatalog toLowerCase (db g_acme) (toLowerCase ''foo-1'') = Missing \<and>
     toLowerCase (toLowerCase ''foo-1'') = toLowerCase ''foo-1'' \<and>
     resolving_key ''acme'' (toLowerCase ''foo-1'') \<notin> set (compatResolving g_acme) \<and>
     ''acme'' \<notin> set (compatResolving g_acme)"
    by (simp add: js_eval override_def getCompatFromCatalog_def g_acme_def empty_db_def)
  from C5_probe_awaited_heuristic_on_failure[where g = g_acme and name = "''acme''"
      and model = "''foo-1''" and p = acme and awaited = openai and now = 7 and lc = toLowerCase
      and pr = "ProbeReturns (listModelsByAnyCompat toLowerCase (\<lambda>c. Inl ()))"
      and res = "listModelsByAnyCompat toLowerCase (\<lambda>c. Inl ())" and pr' = ProbeThrows
      and awaited' = openai and now' = 8] h
  obtain g2 effs where
    "resolveCompat toLowerCase ''acme'' ''foo-1'' acme
        (ProbeReturns (listModelsByAnyCompat toLowerCase (\<lambda>c. Inl ()))) openai 7 g_acme =
       Some (detectCompat toLowerCase ''acme'' ''foo-1'' (baseUrl acme), g2, effs)"
    and "override (db g2) ''acme'' (toLowerCase ''foo-1'') =
       Own (detectCompat toLowerCase ''acme'' ''foo-1'' (baseUrl acme))"
    by blast
  then show ?thesis
    by (simp add: detectCompat_foo toLowerCase_def lower_char_def)
qed

text \<open>
  The claim as stated fails. For \<^verbatim>\<open>(acme, gemini-pro)\<close> nothing is cached and the
  heuristic says \<^verbatim>\<open>gemini\<close>, yet \<open>resolveCompat\<close> returns \<^verbatim>\<open>openai\<close>, the answer of
  the probe it waited for: the provider lists the single model \<^verbatim>\<open>gpt-4o\<close>, under
  \<^verbatim>\<open>openai\<close> first, and that first family is the answer for a model it does not list.
\<close>

theorem C5_heuristic_not_returned_counterexample:
  "override (db g_acme) ''acme'' (toLowerCase ''gemini-pro'') = Missing \<and>
   getCompatFromCatalog toLowerCase (db g_acme) ''gemini-pro'' = Missing \<and>
   detectCompat toLowerCase ''acme'' ''gemini-pro'' (baseUrl acme) = gemini \<and>
   map_option fst
     (resolveCompat toLowerCase ''acme'' ''gemini-pro'' acme
        (ProbeReturns (listModelsByAnyCompat toLowerCase lists_gpt4o)) openai 7 g_acme)
     = Some openai"
  by (simp add: detectCompat_gemini_pro listModelsByAnyCompat_lists_gpt4o resolveCompat_def
      resolveCompat_begin_def resolve_task_def task_ok_def merge_missing_def merge_catalog_def
      finish_resolving_def resolving_set_def resolving_delete_def resolving_key_def
      override_def getCompatFromCatalog_def js_eval g_acme_def empty_db_def acme_def Let_def)

subsection \<open>The configuration commands\<close>

lemma config_update_compatResolving:
  "k \<noteq> name \<Longrightarrow>
   k \<in> set (compatResolving (fst (config_update lc url_ok name field val g))) \<longleftrightarrow>
   k \<in> set (compatResolving g)"
  by (auto simp: config_update_def update_done_def resolving_delete_def Let_def)

lemma resolving_key_neq: "resolving_key name ml \<noteq> name"
  by (simp add: resolving_key_def)

text \<open>No per-model key is ever removed by an update, and none by the removal of one
  provider.\<close>

lemma config_update_keeps_model_keys:
  "resolving_key name ml \<in> set (compatResolving (fst (config_update lc url_ok name field val g))) \<longleftrightarrow>
   resolving_key name ml \<in> set (compatResolving g)"
  by (rule config_update_compatResolving[OF resolving_key_neq])

lemma config_remove_keeps_keys:
  "lc arg \<noteq> ''all'' \<Longrightarrow>
   compatResolving (fst (config_remove lc arg g)) = compatResolving g"
  by (simp add: config_remove_def Let_def)

text \<open>
  Claim C9 fails on the code, by a slip of the code. The resolver registers a resolution
  in flight under the key \<^verbatim>\<open>name::model\<close> only, and \<^verbatim>\<open>ai config update\<close> deletes the
  key \<^verbatim>\<open>name\<close> only, which nothing ever sets; \<^verbatim>\<open>ai config remove name\<close> deletes no
  key at all (\<^verbatim>\<open>remove all\<close> clears the map). Evaluated on the state \<open>g_inflight\<close>:
  both commands drop the cached entries of the provider and ask for a forced refresh of
  the catalog, and both leave the key \<^verbatim>\<open>acme::gpt-4o\<close> in flight. When that probe then
  ends on the updated state, its answer, obtained with the old key, is stored again as
  an entry of the provider.
\<close>

theorem C9_inflight_key_survives:
  "compatResolving (fst (config_update toLowerCase (\<lambda>u. True) ''acme'' ''apikey'' ''sk-2'' g_inflight))
     = [''acme::gpt-4o''] \<and>
   modelCompat (db (fst (config_update toLowerCase (\<lambda>u. True) ''acme'' ''apikey'' ''sk-2'' g_inflight)))
     = [] \<and>
   snd (config_update toLowerCase (\<lambda>u. True) ''acme'' ''apikey'' ''sk-2'' g_inflight)
     = [WriteSoon, RefreshCatalog True, Reply Updated] \<and>
   compatResolving (fst (config_remove toLowerCase ''acme'' g_inflight)) = [''acme::gpt-4o''] \<and>
   modelCompat (db (fst (config_remove toLowerCase ''acme'' g_inflight))) = [] \<and>
   providers (db (fst (config_remove toLowerCase ''acme'' g_inflight))) = [] \<and>
   snd (config_remove toLowerCase ''acme'' g_inflight)
     = [WriteSoon, RefreshCatalog True, Reply Removed] \<and>
   map_option (\<lambda>r. override (db (fst (snd r))) ''acme'' ''gpt-4o'')
     (task_ok ''acme'' ''gpt-4o'' openai
       \<lparr>found_models = [''gpt-4o''], compat = Some openai, compats = [openai],
        modelMap = [(''gpt-4o'', openai)]\<rparr> 9
       (fst (config_update toLowerCase (\<lambda>u. True) ''acme'' ''apikey'' ''sk-2'' g_inflight)))
     = Some (Own openai)"
  by (simp add: config_update_def update_done_def config_remove_def clear_selector_def
      task_ok_def merge_missing_def merge_catalog_def finish_resolving_def
      resolving_delete_def resolving_key_def override_def js_eval g_inflight_def empty_db_def
      acme_def Let_def)
subsection \<open>The conversation history store\<close>

declare trim_items.simps [simp del] trim_bytes.simps [simp del]

lemma foldl_add_sum: "foldl (\<lambda>t x. t + f x) a xs = a + sum_list (map f xs)" for a :: nat
  by (induction xs arbitrary: a) auto

lemma sizeOfHist_sum: "sizeOfHist arr = sum_list (map sizeOfItem arr)"
  by (simp add: sizeOfHist_def foldl_add_sum)

lemma trim_items_eq: "trim_items h = drop (length h - MAX_ITEMS) h"
proof (induction h rule: trim_items.induct)
  case (1 h)
  show ?case
  proof (cases "length h > MAX_ITEMS")
    case True
    then obtain x xs where h: "h = x # xs" by (cases h) auto
    from True h have "Suc (length xs) - MAX_ITEMS = Suc (length xs - MAX_ITEMS)" by simp
    with "1.IH"[OF True] True h show ?thesis
      by (subst trim_items.simps) simp
  next
    case False
    then show ?thesis by (subst trim_items.simps) simp
  qed
qed

lemma trim_bytes_drop: "\<exists>n. trim_bytes t h = drop n h"
proof (induction t h rule: trim_bytes.induct)
  case (1 tot h)
  show ?case
  proof (cases "tot > MAX_BYTES \<and> length h > 1")
    case True
    from "1.IH"[OF True] obtain n where "trim_bytes (tot - sizeOfItem (hd h)) (tl h) = drop n (tl h)" ..
    then have "trim_bytes tot h = drop (Suc n) h"
      using True by (subst trim_bytes.simps) (simp add: drop_Suc)
    then show ?thesis ..
  next
    case False
    then have "trim_bytes tot h = drop 0 h" by (subst trim_bytes.simps) auto
    then show ?thesis ..
  qed
qed

lemma trim_bytes_last: "h \<noteq> [] \<Longrightarrow> trim_bytes t h \<noteq> [] \<and> last (trim_bytes t h) = last h"
proof (induction t h rule: trim_bytes.induct)
  case (1 tot h)
  show ?case
  proof (cases "tot > MAX_BYTES \<and> length h > 1")
    case True
    then obtain x y ys where h: "h = x # y # ys" by (cases h; cases "tl h") auto
    with "1.IH"[OF True] True show ?thesis
      by (subst (1 2) trim_bytes.simps) simp
  next
    case False
    with "1.prems" show ?thesis by (subst (1 2) trim_bytes.simps) auto
  qed
qed

lemma trim_bytes_bound:
  "t = sizeOfHist h \<Longrightarrow> sizeOfHist (trim_bytes t h) \<le> MAX_BYTES \<or> length (trim_bytes t h) \<le> 1"
proof (induction t h rule: trim_bytes.induct)
  case (1 tot h)
  show ?case
  proof (cases "tot > MAX_BYTES \<and> length h > 1")
    case True
    then obtain x xs where h: "h = x # xs" by (cases h) auto
    with "1.prems" have "tot - sizeOfItem (hd h) = sizeOfHist (tl h)"
      by (simp add: sizeOfHist_sum)
    from "1.IH"[OF True this] True show ?thesis
      by (subst (1 2) trim_bytes.simps) simp
  next
    case False
    with "1.prems" show ?thesis by (subst (1 2) trim_bytes.simps) auto
  qed
qed

lemma trim_bytes_id: "t \<le> MAX_BYTES \<Longrightarrow> trim_bytes t h = h"
  by (subst trim_bytes.simps) simp


lemma set_obj_insert_index: "set (obj_insert_index k v ob) = insert (k, v) (set ob)"
  by (induction ob) (auto split: if_splits)

lemma obj_keys_insert_index:
  "set (obj_keys (obj_insert_index k v ob)) = insert k (set (obj_keys ob))"
  by (simp add: obj_keys_def set_obj_insert_index)

lemma distinct_obj_insert_index:
  "k \<notin> set (obj_keys ob) \<Longrightarrow> distinct (obj_keys ob) \<Longrightarrow> distinct (obj_keys (obj_insert_index k v ob))"
proof (induction ob)
  case Nil
  then show ?case by (simp add: obj_keys_def)
next
  case (Cons e ob)
  obtain k' v' where e: "e = (k', v')" by (cases e)
  from Cons.prems e have IH: "distinct (obj_keys (obj_insert_index k v ob))"
    using Cons.IH by (simp add: obj_keys_def)
  have "k' \<notin> set (obj_keys (obj_insert_index k v ob))"
    using Cons.prems e by (auto simp: obj_keys_insert_index) (auto simp: obj_keys_def)
  with IH Cons.prems e show ?case
    by (auto simp: obj_keys_def)
qed

lemma obj_keys_update:
  "obj_keys (map (\<lambda>(k', v'). if k' = k then (k', v) else (k', v')) ob) = obj_keys ob"
  by (induction ob) (auto simp: obj_keys_def)

lemma map_of_None_keys: "map_of ob k = None \<longleftrightarrow> k \<notin> set (obj_keys ob)"
  by (simp add: obj_keys_def map_of_eq_None_iff)

lemma set_obj_keys_obj_set: "set (obj_keys (obj_set k v ob)) = insert k (set (obj_keys ob))"
  by (auto simp: obj_set_def obj_keys_update obj_keys_insert_index map_of_None_keys)
     (auto simp: obj_keys_def)

lemma distinct_obj_set: "distinct (obj_keys ob) \<Longrightarrow> distinct (obj_keys (obj_set k v ob))"
  by (auto simp: obj_set_def obj_keys_update distinct_obj_insert_index map_of_None_keys)
     (auto simp: obj_keys_def)

lemma obj_keys_obj_delete: "obj_keys (obj_delete k ob) = removeAll k (obj_keys ob)"
  by (induction ob) (auto simp: obj_keys_def obj_delete_def)

lemma map_of_obj_delete: "map_of (obj_delete k ob) k' = (if k' = k then None else map_of ob k')"
  by (induction ob) (auto simp: obj_delete_def)

lemma obj_get_obj_delete: "obj_get (obj_delete k ob) k' = (if k' = k then None else obj_get ob k')"
  by (simp add: obj_get_def map_of_obj_delete)

lemma histFor_delete:
  "histFor (d\<lparr>histories := obj_delete v (histories d), histMeta := m\<rparr>) k =
     (if k = v then [] else histFor d k)"
  by (simp add: histFor_def obj_get_obj_delete)

lemma evict_filter:
  "\<exists>n. histories (evict s t d) = filter (\<lambda>(k, h). k \<notin> set (take n s)) (histories d) \<and>
       histMeta (evict s t d) = filter (\<lambda>(k, h). k \<notin> set (take n s)) (histMeta d)"
proof (induction s arbitrary: t d)
  case Nil
  show ?case by simp
next
  case (Cons v s)
  show ?case
  proof (cases "length (v # s) > HISTORY_GLOBAL_MAX_SESSIONS \<or> t > HISTORY_GLOBAL_MAX_BYTES")
    case False
    then have "histories (evict (v # s) t d) = filter (\<lambda>(k, h). k \<notin> set (take 0 (v # s))) (histories d) \<and>
       histMeta (evict (v # s) t d) = filter (\<lambda>(k, h). k \<notin> set (take 0 (v # s))) (histMeta d)"
      by simp
    then show ?thesis by blast
  next
    case True
    let ?d2 = "d\<lparr>histories := obj_delete v (histories d), histMeta := obj_delete v (histMeta d)\<rparr>"
    from Cons.IH[of "t - sizeOfHist (histFor d v)" ?d2]
    obtain n where n: "histories (evict s (t - sizeOfHist (histFor d v)) ?d2) =
          filter (\<lambda>(k, h). k \<notin> set (take n s)) (histories ?d2)"
        "histMeta (evict s (t - sizeOfHist (histFor d v)) ?d2) =
          filter (\<lambda>(k, h). k \<notin> set (take n s)) (histMeta ?d2)"
      by blast
    have "histories (evict (v # s) t d) = filter (\<lambda>(k, h). k \<notin> set (take (Suc n) (v # s))) (histories d) \<and>
       histMeta (evict (v # s) t d) = filter (\<lambda>(k, h). k \<notin> set (take (Suc n) (v # s))) (histMeta d)"
      using True n by (auto simp: obj_delete_def intro!: filter_cong)
    then show ?thesis by blast
  qed
qed

lemma store_bytes_by_keys:
  assumes "distinct (obj_keys (histories d))"
  shows "store_bytes d = sum_list (map (\<lambda>k. sizeOfHist (histFor d k)) (obj_keys (histories d)))"
proof -
  have "distinct (map fst xs) \<Longrightarrow>
        map (\<lambda>k. sizeOfHist (case map_of xs k of None \<Rightarrow> [] | Some h \<Rightarrow> h)) (map fst xs) =
        map (\<lambda>(k, h). sizeOfHist h) xs" for xs :: "turn list obj"
  proof (induction xs)
    case Nil
    show ?case by simp
  next
    case (Cons e xs)
    obtain k h where e: "e = (k, h)" by (cases e)
    from Cons.prems e have nk: "k \<notin> fst ` set xs" and dx: "distinct (map fst xs)" by auto
    have "map (\<lambda>k'. sizeOfHist (case map_of ((k, h) # xs) k' of None \<Rightarrow> [] | Some h \<Rightarrow> h)) (map fst xs) =
          map (\<lambda>k'. sizeOfHist (case map_of xs k' of None \<Rightarrow> [] | Some h \<Rightarrow> h)) (map fst xs)"
      using nk by (intro map_cong) auto
    with Cons.IH[OF dx] e show ?case by simp
  qed
  from this[of "histories d"] assms
  have "map (\<lambda>k. sizeOfHist (histFor d k)) (obj_keys (histories d)) =
        map (\<lambda>(k, h). sizeOfHist h) (histories d)"
    unfolding histFor_def obj_get_def obj_keys_def by blast
  then show ?thesis
    by (simp only: store_bytes_def)
qed

lemma evict_bounds:
  assumes "distinct s" and "set s = set (obj_keys (histories d))"
    and "distinct (obj_keys (histories d))"
    and "t = sum_list (map (\<lambda>k. sizeOfHist (histFor d k)) s)"
  shows "session_count (evict s t d) \<le> HISTORY_GLOBAL_MAX_SESSIONS \<and>
         store_bytes (evict s t d) \<le> HISTORY_GLOBAL_MAX_BYTES"
  using assms
proof (induction s arbitrary: t d)
  case Nil
  then have "histories d = []" by (simp add: obj_keys_def)
  then show ?case by (simp add: session_count_def store_bytes_def obj_keys_def)
next
  case (Cons v s)
  show ?case
  proof (cases "length (v # s) > HISTORY_GLOBAL_MAX_SESSIONS \<or> t > HISTORY_GLOBAL_MAX_BYTES")
    case False
    have len: "length (obj_keys (histories d)) = length (v # s)"
      using Cons.prems(1-3) by (metis distinct_card)
    have "store_bytes d = sum (\<lambda>k. sizeOfHist (histFor d k)) (set (obj_keys (histories d)))"
      using Cons.prems(3) by (simp add: store_bytes_by_keys sum_list_distinct_conv_sum_set)
    also have "\<dots> = sum (\<lambda>k. sizeOfHist (histFor d k)) (set (v # s))"
      by (simp only: Cons.prems(2))
    also have "\<dots> = t"
      unfolding Cons.prems(4) by (rule sum_list_distinct_conv_sum_set[OF Cons.prems(1), symmetric])
    finally show ?thesis
      using False len by (simp add: session_count_def)
  next
    case True
    let ?d2 = "d\<lparr>histories := obj_delete v (histories d), histMeta := obj_delete v (histMeta d)\<rparr>"
    from Cons.prems(1) have vs: "v \<notin> set s" and ds: "distinct s" by auto
    have s2: "set s = set (obj_keys (histories ?d2))"
      using Cons.prems(2) vs by (auto simp: obj_keys_obj_delete)
    have d2: "distinct (obj_keys (histories ?d2))"
      using Cons.prems(3) by (simp add: obj_keys_obj_delete distinct_removeAll)
    have meq: "map (\<lambda>k. sizeOfHist (histFor ?d2 k)) s = map (\<lambda>k. sizeOfHist (histFor d k)) s"
      using vs by (intro map_cong) (auto simp: histFor_delete)
    have t2: "t - sizeOfHist (histFor d v) = sum_list (map (\<lambda>k. sizeOfHist (histFor ?d2 k)) s)"
      unfolding meq using Cons.prems(4) by simp
    from Cons.IH[OF ds s2 d2 t2] True show ?thesis by simp
  qed
qed

lemma evict_keeps_last:
  assumes "distinct (pre @ [i])"
    and "t = sum_list (map (\<lambda>k. sizeOfHist (histFor d k)) (pre @ [i]))"
    and "sizeOfHist (histFor d i) \<le> HISTORY_GLOBAL_MAX_BYTES"
  shows "obj_get (histories (evict (pre @ [i]) t d)) i = obj_get (histories d) i"
  using assms
proof (induction pre arbitrary: t d)
  case Nil
  then show ?case by (simp add: HISTORY_GLOBAL_MAX_SESSIONS_def)
next
  case (Cons v pre)
  show ?case
  proof (cases "length ((v # pre) @ [i]) > HISTORY_GLOBAL_MAX_SESSIONS \<or> t > HISTORY_GLOBAL_MAX_BYTES")
    case False
    then show ?thesis by simp
  next
    case True
    let ?d2 = "d\<lparr>histories := obj_delete v (histories d), histMeta := obj_delete v (histMeta d)\<rparr>"
    from Cons.prems(1) have vs: "v \<notin> set (pre @ [i])" and ds: "distinct (pre @ [i])" by auto
    have meq: "map (\<lambda>k. sizeOfHist (histFor ?d2 k)) (pre @ [i]) = map (\<lambda>k. sizeOfHist (histFor d k)) (pre @ [i])"
      using vs by (intro map_cong) (auto simp: histFor_delete)
    have t2: "t - sizeOfHist (histFor d v) = sum_list (map (\<lambda>k. sizeOfHist (histFor ?d2 k)) (pre @ [i]))"
      unfolding meq using Cons.prems(2) by simp
    have i2: "sizeOfHist (histFor ?d2 i) \<le> HISTORY_GLOBAL_MAX_BYTES"
      using vs Cons.prems(3) by (auto simp: histFor_delete)
    have "obj_get (histories ?d2) i = obj_get (histories d) i"
      using vs by (auto simp: obj_get_obj_delete)
    with Cons.IH[OF ds t2 i2] True show ?thesis by simp
  qed
qed


lemma sort_key_last_max:
  fixes f :: "'a \<Rightarrow> nat"
  assumes "i \<in> set xs" and "\<forall>k\<in>set xs. k \<noteq> i \<longrightarrow> f k < f i"
  shows "\<exists>pre. sort_key f xs = pre @ [i]"
proof -
  let ?s = "sort_key f xs"
  from assms(1) have ne: "?s \<noteq> []" by (auto simp: set_empty[symmetric] simp del: set_empty)
  have srt: "sorted (map f ?s)" by (rule sorted_sort_key)
  have "i \<in> set ?s" using assms(1) by simp
  then obtain j where j: "j < length ?s" "?s ! j = i" by (meson in_set_conv_nth)
  have "f i \<le> f (last ?s)"
  proof -
    from ne have l: "last ?s = ?s ! (length ?s - 1)" by (rule last_conv_nth)
    from j have "j \<le> length ?s - 1" by simp
    with srt j ne have "map f ?s ! j \<le> map f ?s ! (length ?s - 1)"
      by (intro sorted_nth_mono) auto
    with j ne l show ?thesis by simp
  qed
  moreover have "last ?s \<in> set xs" using ne last_in_set[OF ne] by simp
  ultimately have "last ?s = i" using assms(2) by force
  with ne have "?s = butlast ?s @ [i]" by (metis append_butlast_last_id)
  then show ?thesis by blast
qed

lemma sorted_take_drop_le:
  fixes f :: "'a \<Rightarrow> nat"
  assumes "sorted (map f s)" and "a \<in> set (take n s)" and "b \<in> set (drop n s)"
  shows "f a \<le> f b"
proof -
  have "sorted (map f (take n s) @ map f (drop n s))"
    using assms(1) by (simp flip: map_append)
  with assms(2,3) show ?thesis
    by (auto simp: sorted_append)
qed

lemma foldl_sizeOfHist: "foldl (\<lambda>t x. t + sizeOfItem x) 0 h = sizeOfHist h"
  by (simp add: sizeOfHist_def)

lemma histFor_push_session:
  "histFor (push_session i r c now d) i =
     trim_bytes (sizeOfHist (trim_items (histFor d i @ [\<lparr>role = r, content = c\<rparr>])))
       (trim_items (histFor d i @ [\<lparr>role = r, content = c\<rparr>]))"
  by (simp add: push_session_def Let_def histFor_def obj_get_obj_set foldl_sizeOfHist)

lemma trim_items_last: "h \<noteq> [] \<Longrightarrow> trim_items h \<noteq> [] \<and> last (trim_items h) = last h"
  by (cases "length h \<le> MAX_ITEMS") (auto simp: trim_items_eq MAX_ITEMS_def)

lemma push_session_session:
  fixes i r c now d
  defines "h \<equiv> histFor (push_session i r c now d) i"
  shows "h \<noteq> []" and "last h = \<lparr>role = r, content = c\<rparr>" and "length h \<le> MAX_ITEMS"
    and "sizeOfHist h \<le> MAX_BYTES \<or> length h = 1"
    and "\<exists>n. h = drop n (histFor d i @ [\<lparr>role = r, content = c\<rparr>])"
proof -
  let ?h1 = "histFor d i @ [\<lparr>role = r, content = c\<rparr>]"
  let ?h2 = "trim_items ?h1"
  have h: "h = trim_bytes (sizeOfHist ?h2) ?h2"
    by (simp add: h_def histFor_push_session)
  have h2: "?h2 \<noteq> []" "last ?h2 = \<lparr>role = r, content = c\<rparr>"
    using trim_items_last[of ?h1] by simp_all
  from trim_bytes_last[OF h2(1), of "sizeOfHist ?h2"] h2(2)
  show ne: "h \<noteq> []" and "last h = \<lparr>role = r, content = c\<rparr>"
    by (simp_all add: h)
  obtain n where n: "h = drop n ?h2"
    using trim_bytes_drop[of "sizeOfHist ?h2" ?h2] h by auto
  have "length ?h2 \<le> MAX_ITEMS" by (simp add: trim_items_eq)
  with n show "length h \<le> MAX_ITEMS" by simp
  from trim_bytes_bound[of "sizeOfHist ?h2" ?h2] ne
  show "sizeOfHist h \<le> MAX_BYTES \<or> length h = 1"
    by (cases h) (auto simp: h)
  from n have "h = drop (n + (length ?h1 - MAX_ITEMS)) ?h1"
    by (simp only: trim_items_eq drop_drop)
  then show "\<exists>n. h = drop n ?h1" ..
qed

lemma push_session_keys:
  "set (obj_keys (histories (push_session i r c now d))) = insert i (set (obj_keys (histories d)))"
  "distinct (obj_keys (histories d)) \<Longrightarrow> distinct (obj_keys (histories (push_session i r c now d)))"
  by (simp_all add: push_session_def Let_def set_obj_keys_obj_set distinct_obj_set)

lemma map_of_filter_keys:
  "map_of (filter (\<lambda>(k, h). P k) xs) k = (if P k then map_of xs k else None)"
  by (induction xs) auto

lemma prune_cases:
  "pruneGlobalHistories d = d \<or>
   pruneGlobalHistories d =
     evict (sort_key (lastAt_of (histMeta d)) (obj_keys (histories d)))
       (sum_list (map (\<lambda>k. sizeOfHist (histFor d k)) (obj_keys (histories d)))) d"
  by (simp add: pruneGlobalHistories_def Let_def foldl_add_sum)

lemma prune_filter:
  "\<exists>n. histories (pruneGlobalHistories d) =
         filter (\<lambda>(k, h). k \<notin> set (take n (sort_key (lastAt_of (histMeta d)) (obj_keys (histories d)))))
           (histories d) \<and>
       histMeta (pruneGlobalHistories d) =
         filter (\<lambda>(k, h). k \<notin> set (take n (sort_key (lastAt_of (histMeta d)) (obj_keys (histories d)))))
           (histMeta d)"
proof -
  let ?s = "sort_key (lastAt_of (histMeta d)) (obj_keys (histories d))"
  from prune_cases[of d] show ?thesis
  proof
    assume "pruneGlobalHistories d = d"
    then have "histories (pruneGlobalHistories d) = filter (\<lambda>(k, h). k \<notin> set (take 0 ?s)) (histories d) \<and>
       histMeta (pruneGlobalHistories d) = filter (\<lambda>(k, h). k \<notin> set (take 0 ?s)) (histMeta d)"
      by simp
    then show ?thesis by blast
  next
    assume "pruneGlobalHistories d = evict ?s
       (sum_list (map (\<lambda>k. sizeOfHist (histFor d k)) (obj_keys (histories d)))) d"
    then show ?thesis using evict_filter[of ?s _ d] by simp
  qed
qed

lemma prune_bounds:
  assumes "distinct (obj_keys (histories d))"
  shows "session_count (pruneGlobalHistories d) \<le> HISTORY_GLOBAL_MAX_SESSIONS \<and>
         store_bytes (pruneGlobalHistories d) \<le> HISTORY_GLOBAL_MAX_BYTES"
proof -
  let ?ids = "obj_keys (histories d)"
  let ?f = "\<lambda>k. sizeOfHist (histFor d k)"
  let ?s = "sort_key (lastAt_of (histMeta d)) ?ids"
  have tot: "foldl (\<lambda>t k. t + sizeOfHist (histFor d k)) 0 ?ids = store_bytes d"
    using assms by (simp add: foldl_add_sum store_bytes_by_keys)
  show ?thesis
  proof (cases "?ids = []")
    case True
    then show ?thesis
      by (simp add: pruneGlobalHistories_def session_count_def store_bytes_def obj_keys_def)
  next
    case ne: False
    show ?thesis
    proof (cases "length ?ids \<le> HISTORY_GLOBAL_MAX_SESSIONS \<and> store_bytes d \<le> HISTORY_GLOBAL_MAX_BYTES")
      case True
      with ne show ?thesis
        by (simp add: pruneGlobalHistories_def Let_def tot session_count_def)
    next
      case False
      have "sum_list (map ?f ?s) = sum_list (map ?f ?ids)"
        using assms by (simp add: sum_list_distinct_conv_sum_set)
      then have t: "store_bytes d = sum_list (map ?f ?s)"
        using assms by (simp add: store_bytes_by_keys)
      have "session_count (evict ?s (store_bytes d) d) \<le> HISTORY_GLOBAL_MAX_SESSIONS \<and>
            store_bytes (evict ?s (store_bytes d) d) \<le> HISTORY_GLOBAL_MAX_BYTES"
        using assms t by (intro evict_bounds) simp_all
      with ne False show ?thesis
        by (auto simp: pruneGlobalHistories_def Let_def tot)
    qed
  qed
qed

lemma prune_order:
  fixes d
  defines "d' \<equiv> pruneGlobalHistories d"
  assumes a: "a \<in> set (obj_keys (histories d))" "a \<notin> set (obj_keys (histories d'))"
    and b: "b \<in> set (obj_keys (histories d'))"
  shows "lastAt_of (histMeta d) a \<le> lastAt_of (histMeta d) b"
proof -
  let ?s = "sort_key (lastAt_of (histMeta d)) (obj_keys (histories d))"
  from prune_filter[of d] obtain n where
    n: "histories d' = filter (\<lambda>(k, h). k \<notin> set (take n ?s)) (histories d)"
    unfolding d'_def by blast
  then have keys: "set (obj_keys (histories d')) = set (obj_keys (histories d)) - set (take n ?s)"
    by (auto simp: obj_keys_def)
  from a keys have "a \<in> set (take n ?s)" by auto
  moreover from b keys have "b \<in> set ?s" "b \<notin> set (take n ?s)" by auto
  then have "b \<in> set (drop n ?s)"
    by (metis Un_iff append_take_drop_id set_append)
  ultimately show ?thesis
    using sorted_take_drop_le[of "lastAt_of (histMeta d)" ?s a n b] by (simp add: sorted_sort_key)
qed

lemma prune_keeps_whole:
  "obj_get (histories (pruneGlobalHistories d)) b = None \<or>
   obj_get (histories (pruneGlobalHistories d)) b = obj_get (histories d) b"
  using prune_filter[of d] by (auto simp: obj_get_def map_of_filter_keys)

lemma sum_list_le_const:
  fixes f :: "'a \<Rightarrow> nat"
  shows "\<forall>x\<in>set xs. f x \<le> c \<Longrightarrow> sum_list (map f xs) \<le> c * length xs"
  by (induction xs) auto

lemma turn_eta: "\<lparr>role = role t, content = content t\<rparr> = t"
  by (cases t) simp

lemma drop_tail_window:
  "drop (length (drop (length xs - m) xs @ ys) - m) (drop (length xs - m) xs @ ys) =
   drop (length (xs @ ys) - m) (xs @ ys)"
proof (cases "length xs \<le> m")
  case True
  then show ?thesis by simp
next
  case False
  define k where "k = length xs - m"
  from False have k: "k \<le> length xs" "length xs - k = m" "length xs + length ys - m = length ys + k"
    by (simp_all add: k_def)
  have "drop (length ys + k) (xs @ ys) = drop (length ys) (drop k (xs @ ys))"
    by (simp only: drop_drop)
  also have "\<dots> = drop (length ys) (drop k xs @ ys)"
    using k(1) by simp
  finally have r: "drop (length (xs @ ys) - m) (xs @ ys) = drop (length ys) (drop k xs @ ys)"
    using k(3) by simp
  have "length (drop k xs @ ys) - m = length ys"
    using k(2) by simp
  with r show ?thesis
    by (simp only: k_def[symmetric])
qed

lemma prune_single:
  assumes "histories d = [(i, h)]" and "sizeOfHist h \<le> HISTORY_GLOBAL_MAX_BYTES"
  shows "pruneGlobalHistories d = d"
  using assms
  by (simp add: pruneGlobalHistories_def Let_def obj_keys_def histFor_def obj_get_def
      HISTORY_GLOBAL_MAX_SESSIONS_def)

lemma push_single:
  assumes st: "histories d = [] \<and> h = [] \<or> histories d = [(i, h)]"
    and len: "length h \<le> 50"
    and small: "\<forall>x\<in>set h. sizeOfItem x \<le> 1310"
    and t: "sizeOfItem t \<le> 1310"
  shows "histories (pushHist i (role t) (content t) now d) = [(i, drop (length (h @ [t]) - 50) (h @ [t]))]"
proof -
  let ?h1 = "h @ [t]"
  let ?h2 = "drop (length ?h1 - 50) ?h1"
  from st have hf: "histFor d i = h"
    by (auto simp: histFor_def obj_get_def)
  have "\<forall>x\<in>set ?h2. sizeOfItem x \<le> 1310"
    using small t by (auto dest!: in_set_dropD)
  then have "sizeOfHist ?h2 \<le> 1310 * length ?h2"
    unfolding sizeOfHist_sum by (rule sum_list_le_const)
  also have "\<dots> \<le> 1310 * 50" by simp
  finally have sz: "sizeOfHist ?h2 \<le> 65500" by simp
  have set1: "obj_set i v (histories d) = [(i, v)]" for v :: "turn list"
    using st by (auto simp: obj_set_empty) (simp add: obj_set_def)
  have h3: "trim_bytes (sizeOfHist ?h2) ?h2 = ?h2"
    using sz by (intro trim_bytes_id) (simp add: MAX_BYTES_def)
  have d1: "histories (push_session i (role t) (content t) now d) = [(i, ?h2)]"
    using h3 by (simp add: push_session_def Let_def hf trim_items_eq MAX_ITEMS_def foldl_sizeOfHist set1 turn_eta)
  from prune_single[OF d1] sz show ?thesis
    by (simp add: pushHist_def d1 HISTORY_GLOBAL_MAX_BYTES_def)
qed

lemma appends_single:
  assumes "histories d = [] \<and> h = [] \<or> histories d = [(i, h)]"
    and "length h \<le> 50"
    and "\<forall>x\<in>set h. sizeOfItem x \<le> 1310"
    and "\<forall>x\<in>set ops. sizeOfItem (fst x) \<le> 1310"
    and "ops \<noteq> []"
  shows "histories (appends i ops d) =
         [(i, drop (length (h @ map fst ops) - 50) (h @ map fst ops))]"
  using assms
proof (induction ops arbitrary: d h)
  case Nil
  then show ?case by simp
next
  case (Cons e ops)
  obtain t now where e: "e = (t, now)" by (cases e)
  let ?d1 = "pushHist i (role t) (content t) now d"
  let ?h1 = "drop (length (h @ [t]) - 50) (h @ [t])"
  from Cons.prems e have t: "sizeOfItem t \<le> 1310" by simp
  have d1: "histories ?d1 = [(i, ?h1)]"
    using Cons.prems(1-3) t by (rule push_single)
  have app: "appends i (e # ops) d = appends i ops ?d1"
    by (simp add: appends_def e)
  show ?case
  proof (cases "ops = []")
    case True
    with d1 show ?thesis by (simp add: appends_def e)
  next
    case False
    have "histories (appends i ops ?d1) =
          [(i, drop (length (?h1 @ map fst ops) - 50) (?h1 @ map fst ops))]"
    proof (rule Cons.IH)
      show "histories ?d1 = [] \<and> ?h1 = [] \<or> histories ?d1 = [(i, ?h1)]" using d1 by simp
      show "length ?h1 \<le> 50" by simp
      show "\<forall>x\<in>set ?h1. sizeOfItem x \<le> 1310"
        using Cons.prems(3) t by (auto dest!: in_set_dropD)
      show "\<forall>x\<in>set ops. sizeOfItem (fst x) \<le> 1310" using Cons.prems(4) by simp
      show "ops \<noteq> []" by (rule False)
    qed
    also have "drop (length (?h1 @ map fst ops) - 50) (?h1 @ map fst ops) =
               drop (length ((h @ [t]) @ map fst ops) - 50) ((h @ [t]) @ map fst ops)"
      by (rule drop_tail_window)
    finally show ?thesis by (simp add: app[unfolded e] e)
  qed
qed

lemma scenario_sixty:
  assumes "length ops = 60"
    and "\<forall>x\<in>set ops. length (content (fst x)) = 1024 \<and> length (role (fst x)) \<le> 9"
  shows "histFor (appends i ops empty_db) i = drop 10 (map fst ops)"
proof -
  have "\<forall>x\<in>set ops. sizeOfItem (fst x) \<le> 1310"
    using assms(2) by (auto simp: sizeOfItem_def)
  moreover from assms(1) have "ops \<noteq> []" by auto
  ultimately have "histories (appends i ops empty_db) =
      [(i, drop (length ([] @ map fst ops) - 50) ([] @ map fst ops))]"
    by (intro appends_single) (simp_all add: empty_db_def)
  with assms(1) show ?thesis
    by (simp add: histFor_def obj_get_def)
qed

lemma pushHist_session:
  "obj_get (histories (pushHist i r c now d)) i = None \<or>
   histFor (pushHist i r c now d) i = histFor (push_session i r c now d) i"
  using prune_keeps_whole[of "push_session i r c now d" i]
  by (auto simp: pushHist_def histFor_def)

lemma prune_keeps_newest:
  assumes dist: "distinct (obj_keys (histories d))"
    and i: "i \<in> set (obj_keys (histories d))"
    and newest: "\<forall>k\<in>set (obj_keys (histories d)). k \<noteq> i \<longrightarrow> lastAt_of (histMeta d) k < lastAt_of (histMeta d) i"
    and sz: "sizeOfHist (histFor d i) \<le> HISTORY_GLOBAL_MAX_BYTES"
  shows "obj_get (histories (pruneGlobalHistories d)) i = obj_get (histories d) i"
proof -
  let ?ids = "obj_keys (histories d)"
  let ?s = "sort_key (lastAt_of (histMeta d)) ?ids"
  from sort_key_last_max[OF i newest] obtain pre where pre: "?s = pre @ [i]" ..
  have ds: "distinct (pre @ [i])" using dist by (simp flip: pre)
  from prune_cases[of d] show ?thesis
  proof
    assume "pruneGlobalHistories d = d"
    then show ?thesis by simp
  next
    assume p: "pruneGlobalHistories d = evict ?s (sum_list (map (\<lambda>k. sizeOfHist (histFor d k)) ?ids)) d"
    have "sum_list (map (\<lambda>k. sizeOfHist (histFor d k)) ?ids) =
          sum_list (map (\<lambda>k. sizeOfHist (histFor d k)) ?s)"
      using dist by (simp add: sum_list_distinct_conv_sum_set)
    then have "sum_list (map (\<lambda>k. sizeOfHist (histFor d k)) ?ids) =
          sum_list (map (\<lambda>k. sizeOfHist (histFor d k)) (pre @ [i]))"
      by (simp only: pre)
    from evict_keeps_last[OF ds this sz] show ?thesis
      by (simp only: p pre)
  qed
qed

lemma trim_bytes_single: "trim_bytes t [x] = [x]"
  by (subst trim_bytes.simps) simp

lemma push_session_meta:
  "lastAt_of (histMeta (push_session i r c now d)) k = (if k = i then now else lastAt_of (histMeta d) k)"
  by (simp add: push_session_def Let_def lastAt_of_def obj_get_obj_set)

lemma pushHist_keeps_newest:
  assumes dist: "distinct (obj_keys (histories d))"
    and newest: "\<forall>k\<in>set (obj_keys (histories d)). k \<noteq> i \<longrightarrow> lastAt_of (histMeta d) k < now"
    and sz: "length (r @ '':'' @ c) \<le> 2 * 1024 * 1024"
  shows "histFor (pushHist i r c now d) i = histFor (push_session i r c now d) i"
proof -
  let ?d1 = "push_session i r c now d"
  let ?h = "histFor ?d1 i"
  have "sizeOfHist ?h \<le> HISTORY_GLOBAL_MAX_BYTES"
  proof -
    from push_session_session(4)[of i r c now d]
    show ?thesis
    proof
      assume "sizeOfHist ?h \<le> MAX_BYTES"
      then show ?thesis by (simp add: MAX_BYTES_def HISTORY_GLOBAL_MAX_BYTES_def)
    next
      assume "length ?h = 1"
      then obtain x where x: "?h = [x]" by (cases ?h) auto
      with push_session_session(2)[of i r c now d] have "x = \<lparr>role = r, content = c\<rparr>" by simp
      with x sz show ?thesis
        by (simp add: sizeOfHist_sum sizeOfItem_def HISTORY_GLOBAL_MAX_BYTES_def)
    qed
  qed
  moreover have "distinct (obj_keys (histories ?d1))"
    using dist by (rule push_session_keys(2))
  moreover have "i \<in> set (obj_keys (histories ?d1))"
    by (simp add: push_session_keys(1))
  moreover have "\<forall>k\<in>set (obj_keys (histories ?d1)). k \<noteq> i \<longrightarrow>
       lastAt_of (histMeta ?d1) k < lastAt_of (histMeta ?d1) i"
    using newest by (auto simp: push_session_keys(1) push_session_meta)
  ultimately have "obj_get (histories (pruneGlobalHistories ?d1)) i = obj_get (histories ?d1) i"
    by (intro prune_keeps_newest)
  then show ?thesis
    by (simp add: pushHist_def histFor_def)
qed

text \<open>
  Claim C2, as amended. After every append the session appended to holds at most 50 turns
  and either at most 64 KiB of \<^verbatim>\<open>role:content\<close> bytes or exactly one turn (a single
  turn larger than 64 KiB is kept); what the session holds before the global eviction
  is the old turns followed by the new one with only oldest turns dropped. From a store
  with distinct session keys, after the append the store holds at most 200 sessions and
  at most 2 MiB. The global eviction removes whole sessions (a session that stays is
  untouched), and every session it removes was written no later than every session it
  keeps. Sixty appends of 1 KiB each to one session of the empty store leave exactly the
  last 50 turns in their order, within 64 KiB.
\<close>

theorem C2_history_bounds:
  "length (histFor (pushHist i r c now d) i) \<le> 50 \<and>
   (sizeOfHist (histFor (pushHist i r c now d) i) \<le> 64 * 1024 \<or>
    length (histFor (pushHist i r c now d) i) = 1) \<and>
   (\<exists>n. histFor (push_session i r c now d) i = drop n (histFor d i @ [\<lparr>role = r, content = c\<rparr>])) \<and>
   (distinct (obj_keys (histories d)) \<longrightarrow>
      session_count (pushHist i r c now d) \<le> 200 \<and>
      store_bytes (pushHist i r c now d) \<le> 2 * 1024 * 1024) \<and>
   (\<forall>b. obj_get (histories (pushHist i r c now d)) b = None \<or>
        obj_get (histories (pushHist i r c now d)) b =
        obj_get (histories (push_session i r c now d)) b) \<and>
   (\<forall>a b. a \<in> set (obj_keys (histories (push_session i r c now d))) \<and>
          a \<notin> set (obj_keys (histories (pushHist i r c now d))) \<and>
          b \<in> set (obj_keys (histories (pushHist i r c now d))) \<longrightarrow>
          lastAt_of (histMeta (push_session i r c now d)) a \<le>
          lastAt_of (histMeta (push_session i r c now d)) b) \<and>
   (length ops = 60 \<and>
    (\<forall>x\<in>set ops. length (content (fst x)) = 1024 \<and> length (role (fst x)) \<le> 9) \<longrightarrow>
      histFor (appends i ops empty_db) i = drop 10 (map fst ops) \<and>
      length (histFor (appends i ops empty_db) i) = 50 \<and>
      sizeOfHist (histFor (appends i ops empty_db) i) \<le> 64 * 1024)"
proof -
  let ?d1 = "push_session i r c now d"
  let ?d' = "pushHist i r c now d"
  note s = push_session_session[of i r c now d]
  from pushHist_session[of i r c now d]
  have per: "length (histFor ?d' i) \<le> 50 \<and>
      (sizeOfHist (histFor ?d' i) \<le> 64 * 1024 \<or> length (histFor ?d' i) = 1)"
  proof
    assume "obj_get (histories ?d') i = None"
    then have "histFor ?d' i = []" by (simp add: histFor_def)
    then show ?thesis by (simp add: sizeOfHist_def)
  next
    assume "histFor ?d' i = histFor ?d1 i"
    with s(3,4) show ?thesis by (simp add: MAX_ITEMS_def MAX_BYTES_def)
  qed
  have glob: "session_count ?d' \<le> 200 \<and> store_bytes ?d' \<le> 2 * 1024 * 1024"
    if "distinct (obj_keys (histories d))"
    using prune_bounds[OF push_session_keys(2)[OF that, of i r c now]]
    by (simp add: pushHist_def HISTORY_GLOBAL_MAX_SESSIONS_def HISTORY_GLOBAL_MAX_BYTES_def)
  have whole: "obj_get (histories ?d') b = None \<or> obj_get (histories ?d') b = obj_get (histories ?d1) b" for b
    unfolding pushHist_def by (rule prune_keeps_whole)
  have order: "lastAt_of (histMeta ?d1) a \<le> lastAt_of (histMeta ?d1) b"
    if "a \<in> set (obj_keys (histories ?d1)) \<and> a \<notin> set (obj_keys (histories ?d')) \<and>
        b \<in> set (obj_keys (histories ?d'))" for a b
    using that prune_order[of a ?d1 b] by (simp add: pushHist_def)
  have scen: "histFor (appends i ops empty_db) i = drop 10 (map fst ops) \<and>
      length (histFor (appends i ops empty_db) i) = 50 \<and>
      sizeOfHist (histFor (appends i ops empty_db) i) \<le> 64 * 1024"
    if h: "length ops = 60 \<and>
      (\<forall>x\<in>set ops. length (content (fst x)) = 1024 \<and> length (role (fst x)) \<le> 9)"
  proof -
    from h have eq: "histFor (appends i ops empty_db) i = drop 10 (map fst ops)"
      by (intro scenario_sixty) auto
    have "\<forall>x\<in>set (drop 10 (map fst ops)). sizeOfItem x \<le> 1034"
      using h by (fastforce simp: sizeOfItem_def dest!: in_set_dropD)
    then have "sizeOfHist (drop 10 (map fst ops)) \<le> 1034 * length (drop 10 (map fst ops))"
      unfolding sizeOfHist_sum by (rule sum_list_le_const)
    with h eq show ?thesis by simp
  qed
  from per s(5) glob whole order scen show ?thesis by blast
qed

text \<open>
  At a concrete input: sixty turns of 1 KiB with different contents, appended to the
  session \<^verbatim>\<open>chat:42\<close> of the empty store.
\<close>

theorem C2_history_bounds_witness:
  "session_count (pushHist ''chat:42'' ''user'' ''hello'' 1 empty_db) \<le> 200 \<and>
   histFor (appends ''chat:42''
       (map (\<lambda>n. (\<lparr>role = ''user'', content = replicate 1024 (char_of n)\<rparr>, n)) [0..<60])
       empty_db) ''chat:42''
   = drop 10 (map (\<lambda>n. \<lparr>role = ''user'', content = replicate 1024 (char_of n)\<rparr>) [0..<60])"
  using C2_history_bounds[of "''chat:42''" "''user''" "''hello''" 1 empty_db
      "map (\<lambda>n. (\<lparr>role = ''user'', content = replicate 1024 (char_of n)\<rparr>, n)) [0..<60]"]
  by (simp add: empty_db_def obj_keys_def comp_def)

text \<open>
  The claim as stated fails: after the append of one turn of 65541 bytes to the empty
  store the session holds more than 64 KiB, since the loop that drops turns stops at one
  turn (\<^verbatim>\<open>h.length > 1\<close>).
\<close>

theorem C2_session_over_64KiB_counterexample:
  "sizeOfHist (histFor (pushHist ''chat:42'' ''user'' (replicate 65536 CHR ''a'') 1 empty_db) ''chat:42'')
     = 65541 \<and>
   \<not> sizeOfHist (histFor (pushHist ''chat:42'' ''user'' (replicate 65536 CHR ''a'') 1 empty_db) ''chat:42'')
     \<le> 64 * 1024"
  by (simp add: pushHist_def push_session_def pruneGlobalHistories_def histFor_def obj_get_def
      obj_keys_def obj_set_empty empty_db_def trim_items_eq trim_bytes_single sizeOfHist_def
      sizeOfItem_def MAX_ITEMS_def HISTORY_GLOBAL_MAX_SESSIONS_def HISTORY_GLOBAL_MAX_BYTES_def
      Let_def)

text \<open>
  Claim C10, as amended. The per-session eviction of an append removes only oldest turns
  and leaves the session non-empty with the appended turn as its newest, also when that
  turn alone exceeds the 64 KiB of a session. After the whole append the session either
  has been removed by the global eviction or is non-empty with the appended turn as its
  newest; it is not removed when the store has distinct session keys, every other
  session was written before \<open>now\<close>, and the appended turn has at most 2 MiB.
\<close>

theorem C10_append_keeps_own_turn:
  "histFor (push_session i r c now d) i \<noteq> [] \<and>
   last (histFor (push_session i r c now d) i) = \<lparr>role = r, content = c\<rparr> \<and>
   (\<exists>n. histFor (push_session i r c now d) i = drop n (histFor d i @ [\<lparr>role = r, content = c\<rparr>])) \<and>
   (obj_get (histories (pushHist i r c now d)) i = None \<or>
    histFor (pushHist i r c now d) i \<noteq> [] \<and>
    last (histFor (pushHist i r c now d) i) = \<lparr>role = r, content = c\<rparr>) \<and>
   (distinct (obj_keys (histories d)) \<and>
    (\<forall>k\<in>set (obj_keys (histories d)). k \<noteq> i \<longrightarrow> lastAt_of (histMeta d) k < now) \<and>
    length (r @ '':'' @ c) \<le> 2 * 1024 * 1024 \<longrightarrow>
      histFor (pushHist i r c now d) i \<noteq> [] \<and>
      last (histFor (pushHist i r c now d) i) = \<lparr>role = r, content = c\<rparr>)"
proof -
  note s = push_session_session[of i r c now d]
  have a: "obj_get (histories (pushHist i r c now d)) i = None \<or>
    histFor (pushHist i r c now d) i \<noteq> [] \<and>
    last (histFor (pushHist i r c now d) i) = \<lparr>role = r, content = c\<rparr>"
    using pushHist_session[of i r c now d] s(1,2) by auto
  have b: "histFor (pushHist i r c now d) i \<noteq> [] \<and>
      last (histFor (pushHist i r c now d) i) = \<lparr>role = r, content = c\<rparr>"
    if "distinct (obj_keys (histories d)) \<and>
    (\<forall>k\<in>set (obj_keys (histories d)). k \<noteq> i \<longrightarrow> lastAt_of (histMeta d) k < now) \<and>
    length (r @ '':'' @ c) \<le> 2 * 1024 * 1024"
    using pushHist_keeps_newest[of d i now r c] that s(1,2) by simp
  from s(1,2,5) a b show ?thesis by blast
qed

text \<open>At a concrete input: one short turn appended to the empty store.\<close>

theorem C10_append_keeps_own_turn_witness:
  "histFor (pushHist ''chat:42'' ''user'' ''hello'' 1 empty_db) ''chat:42'' \<noteq> [] \<and>
   last (histFor (pushHist ''chat:42'' ''user'' ''hello'' 1 empty_db) ''chat:42'')
     = \<lparr>role = ''user'', content = ''hello''\<rparr>"
  using C10_append_keeps_own_turn[of "''chat:42''" "''user''" "''hello''" 1 empty_db]
  by (simp add: empty_db_def obj_keys_def)

text \<open>
  The claim as stated fails: one turn of more than 2 MiB appended to the empty store
  makes the session the only victim of the global eviction, and the append leaves the
  session, and the store, empty.
\<close>

theorem C10_own_turn_evicted_counterexample:
  "histFor (pushHist ''chat:42'' ''user'' (replicate (2 * 1024 * 1024) CHR ''a'') 1 empty_db) ''chat:42'' = [] \<and>
   histories (pushHist ''chat:42'' ''user'' (replicate (2 * 1024 * 1024) CHR ''a'') 1 empty_db) = []"
  by (simp add: pushHist_def push_session_def pruneGlobalHistories_def histFor_def obj_get_def
      obj_keys_def obj_set_empty obj_delete_def empty_db_def trim_items_eq trim_bytes_single
      sizeOfHist_def sizeOfItem_def MAX_ITEMS_def HISTORY_GLOBAL_MAX_SESSIONS_def
      HISTORY_GLOBAL_MAX_BYTES_def Let_def)

subsection \<open>Splitting a long message\<close>

declare slices.simps [simp del] dec_digits.simps [simp del]

lemma split_lines_nonempty: "split_lines s \<noteq> []"
  by (induction s) auto

lemma concat_split_lines: "concat (split_lines s) = filter (\<lambda>c. c \<noteq> nl) s"
proof (induction s)
  case Nil
  show ?case by simp
next
  case (Cons c s)
  obtain l ls where ls: "split_lines s = l # ls"
    using split_lines_nonempty[of s] by (cases "split_lines s") auto
  with Cons show ?case by auto
qed

lemma split_lines_append_nl:
  "nl \<notin> set xs \<Longrightarrow> split_lines (xs @ nl # ys) = xs # split_lines ys"
  by (induction xs) auto

lemma concat_slices: "0 < limit \<Longrightarrow> concat (slices limit line) = line"
proof (induction limit line rule: slices.induct)
  case (1 limit line)
  show ?case
  proof (cases "line = []")
    case True
    then show ?thesis by (subst slices.simps) simp
  next
    case False
    with "1.prems" "1.IH" show ?thesis
      by (subst slices.simps) simp
  qed
qed

lemma slices_length: "p \<in> set (slices limit line) \<Longrightarrow> length p \<le> limit"
proof (induction limit line rule: slices.induct)
  case (1 limit line)
  show ?case
  proof (cases "0 < limit \<and> line \<noteq> []")
    case True
    from "1.prems" have "p = take limit line \<or> p \<in> set (slices limit (drop limit line))"
      using True by (subst (asm) slices.simps) auto
    with "1.IH"[OF True] show ?thesis by auto
  next
    case False
    with "1.prems" show ?thesis by (subst (asm) slices.simps) auto
  qed
qed

lemma split_step_flat:
  assumes "0 < limit"
  shows "filter (\<lambda>c. c \<noteq> nl) (concat (fst (split_step limit st line)) @ snd (split_step limit st line)) =
         filter (\<lambda>c. c \<noteq> nl) (concat (fst st) @ snd st) @ filter (\<lambda>c. c \<noteq> nl) line"
  using assms
  by (cases st) (auto simp: split_step_def Let_def concat_slices)

lemma foldl_split_step_flat:
  assumes "0 < limit"
  shows "filter (\<lambda>c. c \<noteq> nl) (concat (fst (foldl (split_step limit) st ls)) @ snd (foldl (split_step limit) st ls)) =
         filter (\<lambda>c. c \<noteq> nl) (concat (fst st) @ snd st) @ filter (\<lambda>c. c \<noteq> nl) (concat ls)"
proof (induction ls arbitrary: st)
  case Nil
  show ?case by simp
next
  case (Cons l ls)
  show ?case
    using Cons.IH[of "split_step limit st l"] split_step_flat[OF assms, of st l]
    by simp
qed

lemma split_limit_pos: "0 < split_limit reserve"
  by (simp add: split_limit_def)

lemma splitMessage_filter:
  "filter (\<lambda>c. c \<noteq> nl) (concat (splitMessage text reserve)) = filter (\<lambda>c. c \<noteq> nl) text"
proof (cases "length text \<le> split_limit reserve")
  case True
  then show ?thesis by (simp add: splitMessage_def)
next
  case False
  let ?r = "foldl (split_step (split_limit reserve)) ([], []) (split_lines text)"
  have "concat (splitMessage text reserve) = concat (fst ?r) @ snd ?r"
    using False by (auto simp: splitMessage_def Let_def split: prod.split)
  then show ?thesis
    using foldl_split_step_flat[OF split_limit_pos, of reserve "([], [])" "split_lines text"]
    by (simp add: concat_split_lines)
qed

lemma split_step_within:
  assumes "(\<forall>p\<in>set (fst st). length p \<le> limit) \<and> length (snd st) \<le> limit"
  shows "(\<forall>p\<in>set (fst (split_step limit st line)). length p \<le> limit) \<and>
         length (snd (split_step limit st line)) \<le> limit"
  using assms by (cases st) (auto simp: split_step_def Let_def dest: slices_length)

lemma foldl_split_step_within:
  assumes "(\<forall>p\<in>set (fst st). length p \<le> limit) \<and> length (snd st) \<le> limit"
  shows "(\<forall>p\<in>set (fst (foldl (split_step limit) st ls)). length p \<le> limit) \<and>
         length (snd (foldl (split_step limit) st ls)) \<le> limit"
  using assms
proof (induction ls arbitrary: st)
  case Nil
  then show ?case by simp
next
  case (Cons l ls)
  from Cons.IH[OF split_step_within[OF Cons.prems, of l]] show ?case by simp
qed

lemma splitMessage_within:
  "p \<in> set (splitMessage text reserve) \<Longrightarrow> length p \<le> split_limit reserve"
proof (cases "length text \<le> split_limit reserve")
  case True
  assume "p \<in> set (splitMessage text reserve)"
  with True show ?thesis by (simp add: splitMessage_def)
next
  case False
  assume p: "p \<in> set (splitMessage text reserve)"
  let ?r = "foldl (split_step (split_limit reserve)) ([], []) (split_lines text)"
  obtain parts cur where r: "?r = (parts, cur)" by (cases ?r)
  have "(\<forall>q\<in>set (fst ?r). length q \<le> split_limit reserve) \<and>
        length (snd ?r) \<le> split_limit reserve"
    by (rule foldl_split_step_within) simp
  then have w: "\<forall>q\<in>set parts. length q \<le> split_limit reserve" "length cur \<le> split_limit reserve"
    by (simp_all add: r)
  from p False r have "p \<in> set parts \<or> p = cur"
    by (auto simp: splitMessage_def Let_def split: if_splits)
  with w show ?thesis by auto
qed

lemma split_lines_join:
  "split_lines s = l # ls \<Longrightarrow> l @ concat (map ((#) nl) ls) = s"
proof (induction s arbitrary: l ls)
  case Nil
  then show ?case by simp
next
  case (Cons c s)
  obtain l' ls' where r: "split_lines s = l' # ls'"
    using split_lines_nonempty[of s] by (cases "split_lines s") auto
  have IH: "l' @ concat (map ((#) nl) ls') = s" by (rule Cons.IH[OF r])
  show ?case
  proof (cases "c = nl")
    case True
    with Cons.prems r have "l = []" "ls = l' # ls'" by simp_all
    with IH True show ?thesis by simp
  next
    case False
    with Cons.prems r have "l = c # l'" "ls = ls'" by simp_all
    with IH show ?thesis by simp
  qed
qed

lemma split_step_subseq:
  assumes "0 < limit"
  shows "subseq (concat (fst (split_step limit st line)) @ snd (split_step limit st line))
           ((concat (fst st) @ snd st) @ nl # line)"
proof -
  obtain parts cur where st: "st = (parts, cur)" by (cases st)
  have drop_nl: "subseq (xs @ line) (xs @ nl # line)" for xs :: ustring
    by (rule list_emb_append_mono[OF subseq_order.order_refl]) (rule list_emb_Cons[OF subseq_order.order_refl])
  show ?thesis
  proof (cases "length line > limit")
    case True
    then have "concat (fst (split_step limit st line)) @ snd (split_step limit st line) =
               (concat parts @ cur) @ line"
      using assms by (simp add: st split_step_def concat_slices)
    then show ?thesis using drop_nl[of "concat parts @ cur"] by (simp add: st)
  next
    case False
    show ?thesis
    proof (cases "cur = []")
      case True
      with False have "concat (fst (split_step limit st line)) @ snd (split_step limit st line) =
               (concat parts @ cur) @ line"
        by (simp add: st split_step_def Let_def)
      then show ?thesis using drop_nl[of "concat parts @ cur"] by (simp add: st)
    next
      case ne: False
      show ?thesis
      proof (cases "length (cur @ [nl] @ line) > limit")
        case True
        with False ne have "concat (fst (split_step limit st line)) @ snd (split_step limit st line) =
               (concat parts @ cur) @ line"
          by (simp add: st split_step_def Let_def)
        then show ?thesis using drop_nl[of "concat parts @ cur"] by (simp add: st)
      next
        case F2: False
        with False ne have "concat (fst (split_step limit st line)) @ snd (split_step limit st line) =
               (concat parts @ cur) @ nl # line"
          by (simp add: st split_step_def Let_def)
        then show ?thesis by (simp add: st)
      qed
    qed
  qed
qed

lemma foldl_split_step_subseq:
  assumes "0 < limit"
  shows "subseq (concat (fst (foldl (split_step limit) st ls)) @ snd (foldl (split_step limit) st ls))
           ((concat (fst st) @ snd st) @ concat (map ((#) nl) ls))"
proof (induction ls arbitrary: st)
  case Nil
  show ?case by simp
next
  case (Cons l ls)
  let ?st1 = "split_step limit st l"
  have "subseq ((concat (fst ?st1) @ snd ?st1) @ concat (map ((#) nl) ls))
               (((concat (fst st) @ snd st) @ nl # l) @ concat (map ((#) nl) ls))"
    by (rule list_emb_append_mono[OF split_step_subseq[OF assms] subseq_order.order_refl])
  with Cons.IH[of ?st1]
  have "subseq (concat (fst (foldl (split_step limit) ?st1 ls)) @ snd (foldl (split_step limit) ?st1 ls))
               (((concat (fst st) @ snd st) @ nl # l) @ concat (map ((#) nl) ls))"
    by (rule subseq_order.order_trans)
  then show ?case by simp
qed

lemma split_step_first:
  "0 < limit \<Longrightarrow>
   concat (fst (split_step limit ([], []) line)) @ snd (split_step limit ([], []) line) = line"
  by (simp add: split_step_def Let_def concat_slices)

lemma splitMessage_subseq: "subseq (concat (splitMessage text reserve)) text"
proof (cases "length text \<le> split_limit reserve")
  case True
  then show ?thesis by (simp add: splitMessage_def)
next
  case False
  let ?lim = "split_limit reserve"
  obtain l ls where sl: "split_lines text = l # ls"
    using split_lines_nonempty[of "text"] by (cases "split_lines text") auto
  let ?st1 = "split_step ?lim ([], []) l"
  let ?r = "foldl (split_step ?lim) ?st1 ls"
  have cc: "concat (splitMessage text reserve) = concat (fst ?r) @ snd ?r"
    using False by (auto simp: splitMessage_def Let_def sl split: prod.split)
  have "subseq (concat (fst ?r) @ snd ?r) ((concat (fst ?st1) @ snd ?st1) @ concat (map ((#) nl) ls))"
    by (rule foldl_split_step_subseq[OF split_limit_pos])
  then show ?thesis
    by (simp only: cc split_step_first[OF split_limit_pos] split_lines_join[OF sl])
qed

lemma weave_Nil [simp]: "weave [] [] = []"
  by (simp add: weave_def)

lemma weave_Cons [simp]: "weave (g # gs) (p # ps) = g @ p @ weave gs ps"
  by (simp add: weave_def)

lemma weave_append:
  "length g1 = length p1 \<Longrightarrow> weave (g1 @ g2) (p1 @ p2) = weave g1 p1 @ weave g2 p2"
  by (simp add: weave_def)

lemma weave_no_gaps: "weave (replicate (length ss) []) ss = concat ss"
  by (induction ss) simp_all

lemma slices_nonempty: "0 < limit \<Longrightarrow> line \<noteq> [] \<Longrightarrow> slices limit line \<noteq> []"
  by (subst slices.simps) simp

lemma weave_slices:
  assumes "0 < limit" and "line \<noteq> []"
  shows "weave (x # replicate (length (slices limit line) - 1) []) (slices limit line) = x @ line"
proof -
  from slices_nonempty[OF assms] obtain s ss where ss: "slices limit line = s # ss"
    by (cases "slices limit line") auto
  have "weave (x # replicate (length ss) []) (s # ss) = x @ concat (s # ss)"
    by (simp add: weave_no_gaps)
  then show ?thesis
    using concat_slices[OF assms(1), of line] by (simp add: ss)
qed

lemma breaks_only_simps [simp]:
  "breaks_only []" "breaks_only [nl]" "breaks_only (g @ h) = (breaks_only g \<and> breaks_only h)"
  by (simp_all add: breaks_only_def)

text \<open>
  The invariant of the loop over the lines: the text read so far is the segments pushed,
  each behind its gap, then a pending gap, then \<^verbatim>\<open>cur\<close>.
\<close>

lemma split_step_weave:
  assumes lim: "0 < limit"
    and len: "length gaps = length parts"
    and br: "list_all breaks_only gaps" "breaks_only pg"
  shows "\<exists>gaps' pg'.
     length gaps' = length (fst (split_step limit (parts, cur) line)) \<and>
     list_all breaks_only gaps' \<and> breaks_only pg' \<and>
     (weave gaps parts @ pg @ cur) @ nl # line =
       weave gaps' (fst (split_step limit (parts, cur) line)) @ pg' @
       snd (split_step limit (parts, cur) line)"
proof (cases "length line > limit")
  case True
  then have ne: "line \<noteq> []" by auto
  let ?ss = "slices limit line"
  show ?thesis
  proof (cases "cur = []")
    case True
    let ?g = "gaps @ ((pg @ [nl]) # replicate (length ?ss - 1) [])"
    have st: "split_step limit (parts, cur) line = (parts @ ?ss, [])"
      using True \<open>length line > limit\<close> by (simp add: split_step_def)
    have l: "length ?g = length (parts @ ?ss)"
      using len slices_nonempty[OF lim ne] by (cases ?ss) simp_all
    have w: "weave ?g (parts @ ?ss) = weave gaps parts @ (pg @ [nl]) @ line"
      using weave_append[OF len, of "(pg @ [nl]) # replicate (length ?ss - 1) []" ?ss]
        weave_slices[OF lim ne, of "pg @ [nl]"] by simp
    have b: "list_all breaks_only ?g"
      using br by (auto simp: list_all_iff)
    show ?thesis
      unfolding st fst_conv snd_conv
      by (rule exI[of _ ?g], rule exI[of _ "[]"]) (use l w b True in simp)
  next
    case False
    let ?g = "gaps @ [pg] @ ([nl] # replicate (length ?ss - 1) [])"
    have st: "split_step limit (parts, cur) line = ((parts @ [cur]) @ ?ss, [])"
      using False \<open>length line > limit\<close> by (simp add: split_step_def)
    have l: "length ?g = length ((parts @ [cur]) @ ?ss)"
      using len slices_nonempty[OF lim ne] by (cases ?ss) simp_all
    have l1: "length (gaps @ [pg]) = length (parts @ [cur])" using len by simp
    have w1: "weave (gaps @ [pg]) (parts @ [cur]) = weave gaps parts @ pg @ cur"
      using weave_append[OF len, of "[pg]" "[cur]"] by simp
    have w: "weave ?g ((parts @ [cur]) @ ?ss) = weave gaps parts @ pg @ cur @ [nl] @ line"
      using weave_append[OF l1, of "[nl] # replicate (length ?ss - 1) []" ?ss]
        weave_slices[OF lim ne, of "[nl]"] w1 by simp
    have b: "list_all breaks_only ?g"
      using br by (auto simp: list_all_iff)
    show ?thesis
      unfolding st fst_conv snd_conv
      by (rule exI[of _ ?g], rule exI[of _ "[]"]) (use l w b in simp)
  qed
next
  case short: False
  show ?thesis
  proof (cases "cur = []")
    case True
    have st: "split_step limit (parts, cur) line = (parts, line)"
      using True short by (simp add: split_step_def Let_def)
    show ?thesis
      unfolding st fst_conv snd_conv
      by (rule exI[of _ gaps], rule exI[of _ "pg @ [nl]"]) (use len br True in simp)
  next
    case ne: False
    show ?thesis
    proof (cases "length (cur @ [nl] @ line) > limit")
      case True
      have st: "split_step limit (parts, cur) line = (parts @ [cur], line)"
        using True ne short by (simp add: split_step_def Let_def)
      have w1: "weave (gaps @ [pg]) (parts @ [cur]) = weave gaps parts @ pg @ cur"
        using weave_append[OF len, of "[pg]" "[cur]"] by simp
      show ?thesis
        unfolding st fst_conv snd_conv
        by (rule exI[of _ "gaps @ [pg]"], rule exI[of _ "[nl]"]) (use len br w1 in simp)
    next
      case False
      have st: "split_step limit (parts, cur) line = (parts, cur @ [nl] @ line)"
        using False ne short by (simp add: split_step_def Let_def)
      show ?thesis
        unfolding st fst_conv snd_conv
        by (rule exI[of _ gaps], rule exI[of _ pg]) (use len br in simp)
    qed
  qed
qed

lemma foldl_split_step_weave:
  assumes lim: "0 < limit"
  shows "length gaps = length parts \<Longrightarrow> list_all breaks_only gaps \<Longrightarrow> breaks_only pg \<Longrightarrow>
     \<exists>gaps' pg'.
       length gaps' = length (fst (foldl (split_step limit) (parts, cur) ls)) \<and>
       list_all breaks_only gaps' \<and> breaks_only pg' \<and>
       (weave gaps parts @ pg @ cur) @ concat (map ((#) nl) ls) =
         weave gaps' (fst (foldl (split_step limit) (parts, cur) ls)) @ pg' @
         snd (foldl (split_step limit) (parts, cur) ls)"
proof (induction ls arbitrary: gaps parts pg cur)
  case Nil
  then show ?case by auto
next
  case (Cons l ls)
  obtain parts1 cur1 where s1: "split_step limit (parts, cur) l = (parts1, cur1)"
    by (cases "split_step limit (parts, cur) l")
  from split_step_weave[OF lim Cons.prems, of cur l] s1
  obtain gaps1 pg1 where g1: "length gaps1 = length parts1" "list_all breaks_only gaps1"
      "breaks_only pg1"
    and e1: "(weave gaps parts @ pg @ cur) @ nl # l = weave gaps1 parts1 @ pg1 @ cur1"
    by auto
  from Cons.IH[OF g1, of cur1]
  obtain gaps' pg' where g': "length gaps' = length (fst (foldl (split_step limit) (parts1, cur1) ls))"
      "list_all breaks_only gaps'" "breaks_only pg'"
    and e': "(weave gaps1 parts1 @ pg1 @ cur1) @ concat (map ((#) nl) ls) =
         weave gaps' (fst (foldl (split_step limit) (parts1, cur1) ls)) @ pg' @
         snd (foldl (split_step limit) (parts1, cur1) ls)"
    by blast
  have "(weave gaps parts @ pg @ cur) @ concat (map ((#) nl) (l # ls)) =
        ((weave gaps parts @ pg @ cur) @ nl # l) @ concat (map ((#) nl) ls)"
    by simp
  also have "\<dots> = weave gaps' (fst (foldl (split_step limit) (parts1, cur1) ls)) @ pg' @
         snd (foldl (split_step limit) (parts1, cur1) ls)"
    unfolding e1 by (rule e')
  finally show ?case
    using g' by (auto simp: s1)
qed

lemma split_step_first_weave:
  assumes lim: "0 < limit"
  shows "\<exists>gaps.
     length gaps = length (fst (split_step limit ([], []) line)) \<and> list_all breaks_only gaps \<and>
     line = weave gaps (fst (split_step limit ([], []) line)) @ snd (split_step limit ([], []) line)"
proof (cases "length line > limit")
  case True
  then have ne: "line \<noteq> []" by auto
  have st: "split_step limit ([], []) line = (slices limit line, [])"
    using True by (simp add: split_step_def)
  have l: "length ([] # replicate (length (slices limit line) - 1) []) = length (slices limit line)"
    using slices_nonempty[OF lim ne] by (cases "slices limit line") simp_all
  show ?thesis
    unfolding st fst_conv snd_conv
    by (rule exI[of _ "[] # replicate (length (slices limit line) - 1) []"])
       (use l weave_slices[OF lim ne, of "[]"] in \<open>simp add: list_all_iff\<close>)
next
  case False
  then have st: "split_step limit ([], []) line = ([], line)"
    by (simp add: split_step_def Let_def)
  show ?thesis
    unfolding st fst_conv snd_conv by (rule exI[of _ "[]"]) simp
qed

lemma splitMessage_weave:
  "\<exists>gaps tail.
     length gaps = length (splitMessage text reserve) \<and>
     list_all breaks_only gaps \<and> breaks_only tail \<and>
     text = weave gaps (splitMessage text reserve) @ tail"
proof (cases "length text \<le> split_limit reserve")
  case True
  then have "splitMessage text reserve = [text]" by (simp add: splitMessage_def)
  then show ?thesis
    by (intro exI[of _ "[[]]"] exI[of _ "[]"]) simp
next
  case False
  let ?lim = "split_limit reserve"
  obtain l ls where sl: "split_lines text = l # ls"
    using split_lines_nonempty[of "text"] by (cases "split_lines text") auto
  obtain parts1 cur1 where s1: "split_step ?lim ([], []) l = (parts1, cur1)"
    by (cases "split_step ?lim ([], []) l")
  obtain parts cur where r: "foldl (split_step ?lim) (parts1, cur1) ls = (parts, cur)"
    by (cases "foldl (split_step ?lim) (parts1, cur1) ls")
  from split_step_first_weave[OF split_limit_pos, of reserve l] s1
  obtain gaps1 where g1: "length gaps1 = length parts1" "list_all breaks_only gaps1"
    and e1: "l = weave gaps1 parts1 @ cur1"
    by auto
  have b0: "breaks_only []" by simp
  from foldl_split_step_weave[OF split_limit_pos g1 b0, of reserve cur1 ls] r
  obtain gaps pg where g: "length gaps = length parts" "list_all breaks_only gaps" "breaks_only pg"
    and e: "(weave gaps1 parts1 @ [] @ cur1) @ concat (map ((#) nl) ls) = weave gaps parts @ pg @ cur"
    by auto
  have t: "text = weave gaps parts @ pg @ cur"
    using split_lines_join[OF sl] e e1 by simp
  have sm: "splitMessage text reserve = (if cur \<noteq> [] then parts @ [cur] else parts)"
    using False by (simp add: splitMessage_def Let_def sl s1 r)
  show ?thesis
  proof (cases "cur = []")
    case True
    with sm t g show ?thesis
      by (intro exI[of _ gaps] exI[of _ pg]) simp
  next
    case ne: False
    have "weave (gaps @ [pg]) (parts @ [cur]) = weave gaps parts @ pg @ cur"
      using weave_append[OF g(1), of "[pg]" "[cur]"] by simp
    with ne sm t g show ?thesis
      by (intro exI[of _ "gaps @ [pg]"] exI[of _ "[]"]) simp
  qed
qed

lemma splitMessage_short: "length text \<le> split_limit reserve \<Longrightarrow> splitMessage text reserve = [text]"
  by (simp add: splitMessage_def)

lemma split_limit_0: "split_limit 0 = 4096"
  by (simp add: split_limit_def MAX_MSG_def)

lemma split_limit_48: "split_limit 48 = 4048"
  by (simp add: split_limit_def MAX_MSG_def)

lemma dec_digits_length: "n < 10 ^ Suc k \<Longrightarrow> length (dec_digits n) \<le> Suc k"
proof (induction k arbitrary: n)
  case 0
  then show ?case by (subst dec_digits.simps) simp
next
  case (Suc k)
  show ?case
  proof (cases "n < 10")
    case True
    then show ?thesis by (subst dec_digits.simps) simp
  next
    case False
    from Suc.prems have "n div 10 < 10 ^ Suc k" by simp
    from Suc.IH[OF this] False show ?thesis
      by (subst dec_digits.simps) simp
  qed
qed

lemma page_header_length:
  assumes "i \<le> n" and "n < 10 ^ 20"
  shows "length (page_header i n) \<le> 48"
proof -
  have "length (dec_digits n) \<le> 20" "length (dec_digits i) \<le> 20"
    using assms dec_digits_length[of n 19] dec_digits_length[of i 19] by simp_all
  then show ?thesis
    by (simp add: page_header_def utf16_def)
qed

lemma buildChunks_plain:
  "buildChunks text False [] =
     (if length (splitMessage text 48) \<le> 1 then splitMessage text 48
      else map (\<lambda>i. page_header (i + 1) (length (splitMessage text 48)) @ splitMessage text 48 ! i)
             [0..<length (splitMessage text 48)])"
proof -
  have one: "length xs = 1 \<Longrightarrow> [xs ! 0] = xs" for xs :: "ustring list"
    by (cases xs) auto
  show ?thesis
    by (auto simp: buildChunks_def Let_def applyWrap_def PAGE_EXTRA_def one le_Suc_eq)
qed

text \<open>
  Claim C4, as amended. With reserve 0 the limit is 4096 units, and a text no longer than
  the limit of the reserve comes back as the single segment equal to it. For every text
  each segment of \<open>splitMessage\<close> is at most the limit long, and the text is the
  segments in their order with a run of line breaks (possibly empty) before each segment
  and after the last one: the only units of the text that are in no segment are line
  breaks standing between two segments, before the first or after the last, and inside
  a segment nothing is changed. So the concatenation of the segments is a subsequence of
  the text and agrees with it once all line breaks are removed from both. Without
  collapse and postfix \<open>buildChunks\<close> returns the segments of reserve 48, each behind
  its page header \<^verbatim>\<open>(i/N)\<close> when there are several, and each such page has at most 4096
  units (for fewer than \<open>10^20\<close> pages).
\<close>

theorem C4_split_message:
  "split_limit 0 = 4096 \<and>
   (length text \<le> split_limit reserve \<longrightarrow> splitMessage text reserve = [text]) \<and>
   (\<forall>p\<in>set (splitMessage text reserve). length p \<le> split_limit reserve) \<and>
   (\<exists>gaps tail.
      length gaps = length (splitMessage text reserve) \<and>
      list_all breaks_only gaps \<and> breaks_only tail \<and>
      text = weave gaps (splitMessage text reserve) @ tail) \<and>
   subseq (concat (splitMessage text reserve)) text \<and>
   filter (\<lambda>c. c \<noteq> nl) (concat (splitMessage text reserve)) = filter (\<lambda>c. c \<noteq> nl) text \<and>
   buildChunks text False [] =
     (if length (splitMessage text 48) \<le> 1 then splitMessage text 48
      else map (\<lambda>i. page_header (i + 1) (length (splitMessage text 48)) @ splitMessage text 48 ! i)
             [0..<length (splitMessage text 48)]) \<and>
   (length (splitMessage text 48) < 10 ^ 20 \<longrightarrow>
      (\<forall>c\<in>set (buildChunks text False []). length c \<le> 4096))"
proof -
  let ?parts = "splitMessage text 48"
  have size: "length c \<le> 4096"
    if n: "length ?parts < 10 ^ 20" and c: "c \<in> set (buildChunks text False [])" for c
  proof (cases "length ?parts \<le> 1")
    case True
    with c have "c \<in> set ?parts" by (simp add: buildChunks_plain)
    from splitMessage_within[OF this] show ?thesis by (simp add: split_limit_48)
  next
    case False
    with c obtain i where i: "i < length ?parts"
      and ceq: "c = page_header (i + 1) (length ?parts) @ ?parts ! i"
      by (auto simp: buildChunks_plain)
    have "length (page_header (i + 1) (length ?parts)) \<le> 48"
      using i n by (intro page_header_length) auto
    moreover have "length (?parts ! i) \<le> 4048"
      using splitMessage_within[of "?parts ! i" "text" 48] i by (simp add: split_limit_48)
    ultimately show ?thesis by (simp add: ceq)
  qed
  show ?thesis
  proof (intro conjI impI ballI)
    show "split_limit 0 = 4096" by (rule split_limit_0)
    show "splitMessage text reserve = [text]" if "length text \<le> split_limit reserve"
      using that by (rule splitMessage_short)
    show "length p \<le> split_limit reserve" if "p \<in> set (splitMessage text reserve)" for p
      using that by (rule splitMessage_within)
    show "\<exists>gaps tail.
      length gaps = length (splitMessage text reserve) \<and>
      list_all breaks_only gaps \<and> breaks_only tail \<and>
      text = weave gaps (splitMessage text reserve) @ tail"
      by (rule splitMessage_weave)
    show "subseq (concat (splitMessage text reserve)) text" by (rule splitMessage_subseq)
    show "filter (\<lambda>c. c \<noteq> nl) (concat (splitMessage text reserve)) = filter (\<lambda>c. c \<noteq> nl) text"
      by (rule splitMessage_filter)
    show "buildChunks text False [] =
     (if length ?parts \<le> 1 then ?parts
      else map (\<lambda>i. page_header (i + 1) (length ?parts) @ ?parts ! i) [0..<length ?parts])"
      by (rule buildChunks_plain)
    show "length c \<le> 4096"
      if "length ?parts < 10 ^ 20" and "c \<in> set (buildChunks text False [])" for c
      using that by (rule size)
  qed
qed

text \<open>At a concrete input: a short text is its own single segment and page.\<close>

theorem C4_split_message_witness:
  "splitMessage (utf16 ''hello'') 0 = [utf16 ''hello''] \<and>
   buildChunks (utf16 ''hello'') False [] = [utf16 ''hello'']"
  using C4_split_message[of "utf16 ''hello''" 0] C4_split_message[of "utf16 ''hello''" 48]
  by (simp add: split_limit_0 split_limit_48 utf16_def)

text \<open>
  The claim as stated fails: a line of 4048 units, a line break and one more unit exceed
  the limit 4048 of reserve 48; the two segments are the two lines, and the line break
  between them is in neither, so their concatenation is not the text.
\<close>

theorem C4_concat_loses_newline_counterexample:
  "length (replicate 4048 97 @ [nl, 98]) > split_limit 48 \<and>
   splitMessage (replicate 4048 97 @ [nl, 98]) 48 = [replicate 4048 97, [98]] \<and>
   concat (splitMessage (replicate 4048 97 @ [nl, 98]) 48) \<noteq> replicate 4048 97 @ [nl, 98] \<and>
   buildChunks (replicate 4048 97 @ [nl, 98]) False [] =
     [page_header 1 2 @ replicate 4048 97, page_header 2 2 @ [98]]"
proof -
  have sl: "split_lines (replicate 4048 97 @ [nl, 98]) = [replicate 4048 97, [98]]"
    using split_lines_append_nl[of "replicate 4048 97" "[98]"]
    by (simp add: nl_def)
  have sm: "splitMessage (replicate 4048 97 @ [nl, 98]) 48 = [replicate 4048 97, [98]]"
    by (simp add: splitMessage_def sl split_limit_48 split_step_def Let_def)
  have upt2: "[0..<2] = [0, 1]" by (simp add: upt_rec)
  show ?thesis
    by (simp add: sm split_limit_48 buildChunks_plain upt2 numeral_2_eq_2)
qed

subsection \<open>The Gemini request with its fallback\<close>

lemma try_configs_requests:
  "requests (try_configs lc net v le cs) = map (Pair v) (attempts_tried lc net v cs)"
proof (induction cs arbitrary: le)
  case Nil
  show ?case by (simp add: attempts_tried_def)
next
  case (Cons c cs)
  show ?case
  proof (cases "net v c")
    case (Inr r)
    then show ?thesis by (simp add: attempts_tried_def goes_on_def)
  next
    case (Inl e)
    show ?thesis
    proof (cases "isRouteError lc e")
      case True
      with Inl show ?thesis by (simp add: attempts_tried_def goes_on_def)
    next
      case False
      with Inl have g: "goes_on lc net v c" by (simp add: goes_on_def)
      from Cons.IH[of "Some e"] Inl False g show ?thesis
        by (simp add: attempts_tried_def Let_def)
    qed
  qed
qed

lemma attempts_tried_nonempty: "cs \<noteq> [] \<Longrightarrow> attempts_tried lc net v cs \<noteq> []"
  by (cases cs) (auto simp: attempts_tried_def)

lemma attempts_tried_Cons:
  "attempts_tried lc net v (c # cs) =
     (if goes_on lc net v c then c # attempts_tried lc net v cs else [c])"
  by (simp add: attempts_tried_def)

lemma try_configs_answer:
  "answer (try_configs lc net v le cs) =
     (if cs = [] then Inl le
      else outcome_of_request net (v, last (attempts_tried lc net v cs)))"
proof (induction cs arbitrary: le)
  case Nil
  show ?case by simp
next
  case (Cons c cs)
  show ?case
  proof (cases "net v c")
    case (Inr r)
    then show ?thesis
      by (simp add: attempts_tried_Cons goes_on_def outcome_of_request_def)
  next
    case (Inl e)
    show ?thesis
    proof (cases "isRouteError lc e")
      case True
      with Inl show ?thesis
        by (simp add: attempts_tried_Cons goes_on_def outcome_of_request_def)
    next
      case False
      with Inl have g: "goes_on lc net v c" by (simp add: goes_on_def)
      show ?thesis
      proof (cases "cs = []")
        case True
        with Inl False g show ?thesis
          by (simp add: attempts_tried_Cons attempts_tried_def outcome_of_request_def Let_def)
      next
        case ne: False
        from Cons.IH[of "Some e"] Inl False g ne attempts_tried_nonempty[OF ne, of lc net v]
        show ?thesis
          by (simp add: attempts_tried_Cons Let_def)
      qed
    qed
  qed
qed

lemma try_configs_succeeds:
  "(\<exists>r. answer (try_configs lc net v le cs) = Inr r) = version_succeeded lc net v cs"
proof (induction cs arbitrary: le)
  case Nil
  show ?case by (simp add: version_succeeded_def)
next
  case (Cons c cs)
  show ?case
  proof (cases "net v c")
    case (Inr r)
    then show ?thesis by (simp add: version_succeeded_def goes_on_def)
  next
    case (Inl e)
    show ?thesis
    proof (cases "isRouteError lc e")
      case True
      with Inl show ?thesis by (simp add: version_succeeded_def goes_on_def)
    next
      case False
      with Inl have g: "goes_on lc net v c" by (simp add: goes_on_def)
      from Cons.IH[of "Some e"] Inl False g show ?thesis
        by (simp add: version_succeeded_def Let_def)
    qed
  qed
qed

lemma remdups_snoc: "remdups (ys @ [c]) = filter (\<lambda>x. x \<noteq> c) (remdups ys) @ [c]"
  by (induction ys) auto

lemma dedupe_first_occurrences:
  "dedupe seen xs = filter (\<lambda>x. x \<notin> set seen) (rev (remdups (rev xs)))"
proof (induction xs arbitrary: seen)
  case Nil
  show ?case by simp
next
  case (Cons c cs)
  have r: "rev (remdups (rev cs @ [c])) = c # filter (\<lambda>x. x \<noteq> c) (rev (remdups (rev cs)))"
    by (simp add: remdups_snoc rev_filter)
  show ?case
  proof (cases "c \<in> set seen")
    case True
    then have "filter (\<lambda>x. x \<notin> set seen) (filter (\<lambda>x. x \<noteq> c) (rev (remdups (rev cs)))) =
        filter (\<lambda>x. x \<notin> set seen) (rev (remdups (rev cs)))"
      by (auto intro: filter_cong)
    with True Cons.IH[of seen] show ?thesis
      by (simp add: r)
  next
    case False
    have "filter (\<lambda>x. x \<notin> set (c # seen)) (rev (remdups (rev cs))) =
        filter (\<lambda>x. x \<notin> set seen) (filter (\<lambda>x. x \<noteq> c) (rev (remdups (rev cs))))"
      by (auto intro: filter_cong)
    with False Cons.IH[of "c # seen"] show ?thesis
      by (simp add: r)
  qed
qed

lemma mkConfigs_first_occurrences:
  "mkConfigs p hs ps =
     rev (remdups (rev
       (if compatauth p = Some openai \<or> compatauth p = Some claude
        then [cfgAuth p hs ps, cfgXGoog p hs ps, cfgKey p hs ps]
        else [cfgKey p hs ps, cfgXGoog p hs ps, cfgAuth p hs ps])))"
  unfolding mkConfigs_def Let_def dedupe_first_occurrences by simp

lemma mkConfigs_nonempty: "mkConfigs p hs ps \<noteq> []"
  by (simp add: mkConfigs_def Let_def)

lemma map_of_foldl_obj_set:
  "map_of (foldl (\<lambda>ob (k, v). obj_set k v ob) acc xs) k = None \<longleftrightarrow>
     map_of acc k = None \<and> map_of xs k = None"
proof (induction xs arbitrary: acc)
  case Nil
  show ?case by simp
next
  case (Cons e xs)
  obtain k0 v0 where e: "e = (k0, v0)" by (cases e)
  show ?case
    unfolding e using Cons.IH[of "obj_set k0 v0 acc"]
    by (auto simp: map_of_obj_set)
qed

lemma map_of_obj_spread_None:
  "map_of (obj_spread a []) k = None \<longleftrightarrow> map_of a k = None"
  by (simp add: obj_spread_def map_of_foldl_obj_set)

lemma map_of_foldl_obj_set_add:
  "map_of (foldl (\<lambda>ob (k, v). obj_set k v ob) acc xs) = map_of acc ++ map_of (rev xs)"
proof (induction xs arbitrary: acc)
  case Nil
  show ?case by simp
next
  case (Cons e xs)
  obtain k v where e: "e = (k, v)" by (cases e)
  have "map_of (foldl (\<lambda>ob (k, v). obj_set k v ob) acc (e # xs)) =
        map_of (foldl (\<lambda>ob (k, v). obj_set k v ob) (obj_set k v acc) xs)"
    by (simp add: e)
  also have "\<dots> = map_of (obj_set k v acc) ++ map_of (rev xs)"
    by (rule Cons.IH)
  also have "\<dots> = (map_of acc)(k \<mapsto> v) ++ map_of (rev xs)"
    by (simp only: map_of_obj_set)
  also have "\<dots> = map_of acc ++ map_of (rev (e # xs))"
    by (rule ext) (auto simp: e map_add_def split: option.split)
  finally show ?case .
qed

lemma map_of_rev_distinct:
  assumes "distinct (map fst xs)"
  shows "map_of (rev xs) = map_of xs"
proof (rule ext)
  fix k
  show "map_of (rev xs) k = map_of xs k"
  proof (cases "map_of xs k")
    case None
    then have "k \<notin> fst ` set (rev xs)" by (simp add: map_of_eq_None_iff)
    with None show ?thesis by (simp add: map_of_eq_None_iff[THEN iffD2])
  next
    case (Some v)
    then have "(k, v) \<in> set (rev xs)" by (auto dest: map_of_SomeD)
    moreover from assms have "distinct (map fst (rev xs))" by (simp add: rev_map[symmetric])
    ultimately have "map_of (rev xs) k = Some v" by (rule map_of_is_SomeI[rotated])
    with Some show ?thesis by simp
  qed
qed

lemma map_of_obj_spread:
  "distinct (map fst a) \<Longrightarrow> map_of (obj_spread a []) = map_of a"
  by (simp add: obj_spread_def map_of_foldl_obj_set_add map_of_rev_distinct)

lemma attempts_carry_request:
  assumes "distinct (map fst hs)" and "distinct (map fst ps)"
  shows "map_of (headers (cfgKey p hs ps)) = map_of hs"
    and "map_of (params (cfgKey p hs ps)) = (map_of ps)(''key'' \<mapsto> apiKey p)"
    and "map_of (headers (cfgXGoog p hs ps)) = (map_of hs)(''x-goog-api-key'' \<mapsto> apiKey p)"
    and "map_of (params (cfgXGoog p hs ps)) = map_of ps"
    and "map_of (headers (cfgAuth p hs ps)) = (map_of hs)(''Authorization'' \<mapsto> ''Bearer '' @ apiKey p)"
    and "map_of (params (cfgAuth p hs ps)) = map_of ps"
  using assms
  by (simp_all add: cfgKey_def cfgXGoog_def cfgAuth_def map_of_obj_set map_of_obj_spread)

lemma mkConfigs_three:
  assumes "map_of hs ''x-goog-api-key'' = None" and "map_of hs ''Authorization'' = None"
  shows "mkConfigs p hs ps =
     (if compatauth p = Some openai \<or> compatauth p = Some claude
      then [cfgAuth p hs ps, cfgXGoog p hs ps, cfgKey p hs ps]
      else [cfgKey p hs ps, cfgXGoog p hs ps, cfgAuth p hs ps])"
proof -
  let ?H = "obj_spread hs []"
  from assms have n: "map_of ?H ''x-goog-api-key'' = None" "map_of ?H ''Authorization'' = None"
    by (simp_all add: map_of_obj_spread_None)
  have x: "map_of (obj_set ''x-goog-api-key'' (apiKey p) ?H) ''x-goog-api-key'' = Some (apiKey p)"
    and a: "map_of (obj_set ''Authorization'' (''Bearer '' @ apiKey p) ?H) ''Authorization'' =
        Some (''Bearer '' @ apiKey p)"
    and ax: "map_of (obj_set ''Authorization'' (''Bearer '' @ apiKey p) ?H) ''x-goog-api-key'' = None"
    using n by (simp_all add: map_of_obj_set)
  from n x have kx: "cfgKey p hs ps \<noteq> cfgXGoog p hs ps"
    by (auto simp: cfgKey_def cfgXGoog_def)
  from n a have ka: "cfgKey p hs ps \<noteq> cfgAuth p hs ps"
    by (auto simp: cfgKey_def cfgAuth_def)
  from x ax have xa: "cfgXGoog p hs ps \<noteq> cfgAuth p hs ps"
    by (auto simp: cfgXGoog_def cfgAuth_def)
  from kx ka xa show ?thesis
    by (auto simp: mkConfigs_def Let_def)
qed

lemma gemini_run:
  "geminiRequestWithFallback lc net p hs ps =
     (let cs = mkConfigs p hs ps; here = try_configs lc net V1beta None cs in
      case answer here of
        Inr r \<Rightarrow> here
      | Inl e \<Rightarrow>
          \<lparr>requests = requests here @ requests (try_configs lc net V1 e cs),
           answer = answer (try_configs lc net V1 e cs)\<rparr>)"
  by (auto simp: geminiRequestWithFallback_def Let_def split: sum.splits)

lemma gemini_requests:
  "requests (geminiRequestWithFallback lc net p hs ps) =
     map (Pair V1beta) (attempts_tried lc net V1beta (mkConfigs p hs ps)) @
     (if version_succeeded lc net V1beta (mkConfigs p hs ps) then []
      else map (Pair V1) (attempts_tried lc net V1 (mkConfigs p hs ps)))"
proof (cases "answer (try_configs lc net V1beta None (mkConfigs p hs ps))")
  case (Inr r)
  then have "version_succeeded lc net V1beta (mkConfigs p hs ps)"
    using try_configs_succeeds[of lc net V1beta None "mkConfigs p hs ps"] by simp
  with Inr show ?thesis
    by (simp add: gemini_run Let_def try_configs_requests)
next
  case (Inl e)
  then have "\<not> version_succeeded lc net V1beta (mkConfigs p hs ps)"
    using try_configs_succeeds[of lc net V1beta None "mkConfigs p hs ps"] by simp
  with Inl show ?thesis
    by (simp add: gemini_run Let_def try_configs_requests)
qed

lemma gemini_requests_nonempty: "requests (geminiRequestWithFallback lc net p hs ps) \<noteq> []"
  using attempts_tried_nonempty[OF mkConfigs_nonempty, of lc net V1beta p hs ps]
  by (simp add: gemini_requests)

lemma gemini_answer:
  "answer (geminiRequestWithFallback lc net p hs ps) =
     outcome_of_request net (last (requests (geminiRequestWithFallback lc net p hs ps)))"
proof (cases "answer (try_configs lc net V1beta None (mkConfigs p hs ps))")
  case (Inr r)
  then show ?thesis
    using attempts_tried_nonempty[OF mkConfigs_nonempty, of lc net V1beta p hs ps]
      try_configs_answer[of lc net V1beta None "mkConfigs p hs ps"]
    by (simp add: gemini_run Let_def try_configs_requests mkConfigs_nonempty last_map)
next
  case (Inl e)
  then show ?thesis
    using attempts_tried_nonempty[OF mkConfigs_nonempty, of lc net V1 p hs ps]
      try_configs_answer[of lc net V1 e "mkConfigs p hs ps"]
    by (simp add: gemini_run Let_def try_configs_requests mkConfigs_nonempty last_map)
qed

lemma attempts_tried_all_fail:
  assumes "\<forall>c\<in>set cs. goes_on lc net v c"
  shows "attempts_tried lc net v cs = cs" and "\<not> version_succeeded lc net v cs"
proof -
  from assms have tw: "takeWhile (goes_on lc net v) cs = cs"
    by (simp add: takeWhile_eq_all_conv)
  from assms have dw: "dropWhile (goes_on lc net v) cs = []"
    by simp
  show "attempts_tried lc net v cs = cs" and "\<not> version_succeeded lc net v cs"
    by (simp_all add: attempts_tried_def version_succeeded_def tw dw)
qed

lemma attempts_tried_stop:
  assumes "i < length cs" and "\<forall>j<i. goes_on lc net v (cs ! j)" and "\<not> goes_on lc net v (cs ! i)"
  shows "attempts_tried lc net v cs = take (Suc i) cs"
    and "version_succeeded lc net v cs = (\<exists>r. net v (cs ! i) = Inr r)"
proof -
  have tw: "takeWhile (goes_on lc net v) cs = take i cs"
    using assms by (intro takeWhile_eq_take_P_nth) auto
  have dw: "dropWhile (goes_on lc net v) cs = drop i cs"
    using assms(1) by (simp add: dropWhile_eq_drop tw)
  from assms(1) have d: "drop i cs = cs ! i # drop (Suc i) cs"
    by (simp add: Cons_nth_drop_Suc)
  show "attempts_tried lc net v cs = take (Suc i) cs"
    using assms(1) by (simp add: attempts_tried_def tw dw d take_Suc_conv_app_nth)
  show "version_succeeded lc net v cs = (\<exists>r. net v (cs ! i) = Inr r)"
    by (auto simp: version_succeeded_def dw d split: sum.splits)
qed

lemma obj_spread_empty: "obj_spread [] [] = []"
  by (simp add: obj_spread_def)

lemma mkConfigs_plain:
  "mkConfigs p [] [] =
     (if compatauth p = Some openai \<or> compatauth p = Some claude
      then [\<lparr>headers = [(''Authorization'', ''Bearer '' @ apiKey p)], params = []\<rparr>,
            \<lparr>headers = [(''x-goog-api-key'', apiKey p)], params = []\<rparr>,
            \<lparr>headers = [], params = [(''key'', apiKey p)]\<rparr>]
      else [\<lparr>headers = [], params = [(''key'', apiKey p)]\<rparr>,
            \<lparr>headers = [(''x-goog-api-key'', apiKey p)], params = []\<rparr>,
            \<lparr>headers = [(''Authorization'', ''Bearer '' @ apiKey p)], params = []\<rparr>])"
  by (simp add: mkConfigs_def cfgKey_def cfgXGoog_def cfgAuth_def obj_spread_empty obj_set_empty Let_def)

lemma isRouteError_iff:
  "isRouteError lc err \<longleftrightarrow>
     status_of err = Some 404 \<or> status_of err = Some 405 \<or>
     (status_of err = Some 400 \<and>
      (\<exists>w\<in>{''unknown'', ''not found'', ''invalid path'', ''no route''}.
          str_includes (lc (error_text err)) w))"
  by (simp add: isRouteError_def Let_def)

lemma err404_route: "isRouteError lc err404"
  by (simp add: isRouteError_def err404_def status_of_def Let_def)

lemma err401_not_route: "\<not> isRouteError lc err401"
  by (simp add: isRouteError_def err401_def status_of_def Let_def)

lemma gemini_success_stops:
  assumes "i < length (mkConfigs p hs ps)"
    and "\<forall>j<i. goes_on lc net V1beta (mkConfigs p hs ps ! j)"
    and "net V1beta (mkConfigs p hs ps ! i) = Inr r"
  shows "geminiRequestWithFallback lc net p hs ps =
     \<lparr>requests = map (Pair V1beta) (take (Suc i) (mkConfigs p hs ps)), answer = Inr r\<rparr>"
proof -
  let ?cs = "mkConfigs p hs ps"
  from assms(3) have ng: "\<not> goes_on lc net V1beta (?cs ! i)"
    by (simp add: goes_on_def)
  note st = attempts_tried_stop[OF assms(1,2) ng]
  from st(2) assms(3) have ok: "version_succeeded lc net V1beta ?cs" by simp
  have rq: "requests (geminiRequestWithFallback lc net p hs ps) = map (Pair V1beta) (take (Suc i) ?cs)"
    using ok st(1) by (simp add: gemini_requests)
  from assms(1) have "last (map (Pair V1beta) (take (Suc i) ?cs)) = (V1beta, ?cs ! i)"
    by (simp add: take_Suc_conv_app_nth)
  with assms(3) have an: "answer (geminiRequestWithFallback lc net p hs ps) = Inr r"
    unfolding gemini_answer rq by (simp add: outcome_of_request_def)
  from rq an show ?thesis
    by (cases "geminiRequestWithFallback lc net p hs ps") simp
qed

lemma gemini_route_error_falls_back:
  assumes "i < length (mkConfigs p hs ps)"
    and "\<forall>j<i. goes_on lc net V1beta (mkConfigs p hs ps ! j)"
    and "net V1beta (mkConfigs p hs ps ! i) = Inl e" and "isRouteError lc e"
  shows "requests (geminiRequestWithFallback lc net p hs ps) =
     map (Pair V1beta) (take (Suc i) (mkConfigs p hs ps)) @
     map (Pair V1) (attempts_tried lc net V1 (mkConfigs p hs ps))"
proof -
  let ?cs = "mkConfigs p hs ps"
  from assms(3,4) have ng: "\<not> goes_on lc net V1beta (?cs ! i)"
    by (simp add: goes_on_def)
  note st = attempts_tried_stop[OF assms(1,2) ng]
  from st(2) assms(3) have "\<not> version_succeeded lc net V1beta ?cs" by simp
  with st(1) show ?thesis
    by (simp add: gemini_requests)
qed

lemma gemini_all_fail:
  assumes "\<forall>v c. \<exists>e. net v c = Inl e \<and> \<not> isRouteError lc e"
  shows "requests (geminiRequestWithFallback lc net p hs ps) =
           map (Pair V1beta) (mkConfigs p hs ps) @ map (Pair V1) (mkConfigs p hs ps)"
    and "answer (geminiRequestWithFallback lc net p hs ps) =
           outcome_of_request net (V1, last (mkConfigs p hs ps))"
proof -
  let ?cs = "mkConfigs p hs ps"
  have g: "\<forall>c\<in>set ?cs. goes_on lc net v c" for v
  proof
    fix c
    from assms obtain e where "net v c = Inl e" "\<not> isRouteError lc e" by blast
    then show "goes_on lc net v c" by (simp add: goes_on_def)
  qed
  note b = attempts_tried_all_fail[OF g[of V1beta]]
  note c = attempts_tried_all_fail[OF g[of V1]]
  show rq: "requests (geminiRequestWithFallback lc net p hs ps) =
           map (Pair V1beta) ?cs @ map (Pair V1) ?cs"
    using b c by (simp add: gemini_requests)
  show "answer (geminiRequestWithFallback lc net p hs ps) =
           outcome_of_request net (V1, last ?cs)"
    using mkConfigs_nonempty[of p hs ps] by (simp add: gemini_answer rq last_map)
qed

text \<open>
  Claim C6, as amended. A route-not-found class error is one with status 404 or 405, or
  with status 400 and a text (the body as \<^verbatim>\<open>String\<close> prints it, else the message) that
  contains \<^verbatim>\<open>unknown\<close>, \<^verbatim>\<open>not found\<close>, \<^verbatim>\<open>invalid path\<close> or \<^verbatim>\<open>no route\<close> once
  lower-cased. The auth attempts are the query key, the \<^verbatim>\<open>x-goog-api-key\<close> header and
  the bearer token, built on the headers and parameters of the request, in this order,
  reversed when the hint of the provider is \<^verbatim>\<open>openai\<close> or \<^verbatim>\<open>claude\<close>; of attempts
  that come out equal only the first is kept, and all three are kept when the request
  brings neither of the two headers. Each attempt carries the headers and the parameters
  of the request with its one credential added or replaced. The adapter goes through \<^verbatim>\<open>/v1beta\<close> and then
  \<^verbatim>\<open>/v1\<close>. At each version it tries the attempts in order, up to and including the
  first that succeeds or fails with a route error. A success ends the whole call: no
  further request is sent and its data is returned. Otherwise, after a route error of
  any attempt at \<^verbatim>\<open>/v1beta\<close> or after the failure of all of them, the same request goes
  against \<^verbatim>\<open>/v1\<close>, again from the first attempt on. At least one request is sent,
  and the answer is the outcome of the last request sent. When every attempt fails with
  an error that is no route error, every attempt is tried at \<^verbatim>\<open>/v1beta\<close>, then every
  attempt at \<^verbatim>\<open>/v1\<close>, and the last error is thrown.
\<close>

theorem C6_gemini_fallback:
  fixes net :: "api_version \<Rightarrow> attempt \<Rightarrow> js_error + 'r"
  shows
  "(isRouteError lc err \<longleftrightarrow>
      status_of err = Some 404 \<or> status_of err = Some 405 \<or>
      (status_of err = Some 400 \<and>
       (\<exists>w\<in>{''unknown'', ''not found'', ''invalid path'', ''no route''}.
           str_includes (lc (error_text err)) w))) \<and>
   mkConfigs p hs ps =
     rev (remdups (rev
       (if compatauth p = Some openai \<or> compatauth p = Some claude
        then [cfgAuth p hs ps, cfgXGoog p hs ps, cfgKey p hs ps]
        else [cfgKey p hs ps, cfgXGoog p hs ps, cfgAuth p hs ps]))) \<and>
   (map_of hs ''x-goog-api-key'' = None \<and> map_of hs ''Authorization'' = None \<longrightarrow>
      mkConfigs p hs ps =
        (if compatauth p = Some openai \<or> compatauth p = Some claude
         then [cfgAuth p hs ps, cfgXGoog p hs ps, cfgKey p hs ps]
         else [cfgKey p hs ps, cfgXGoog p hs ps, cfgAuth p hs ps])) \<and>
   (distinct (map fst hs) \<and> distinct (map fst ps) \<longrightarrow>
      map_of (headers (cfgKey p hs ps)) = map_of hs \<and>
      map_of (params (cfgKey p hs ps)) = (map_of ps)(''key'' \<mapsto> apiKey p) \<and>
      map_of (headers (cfgXGoog p hs ps)) = (map_of hs)(''x-goog-api-key'' \<mapsto> apiKey p) \<and>
      map_of (params (cfgXGoog p hs ps)) = map_of ps \<and>
      map_of (headers (cfgAuth p hs ps)) =
        (map_of hs)(''Authorization'' \<mapsto> ''Bearer '' @ apiKey p) \<and>
      map_of (params (cfgAuth p hs ps)) = map_of ps) \<and>
   mkConfigs p [] [] =
     (if compatauth p = Some openai \<or> compatauth p = Some claude
      then [\<lparr>headers = [(''Authorization'', ''Bearer '' @ apiKey p)], params = []\<rparr>,
            \<lparr>headers = [(''x-goog-api-key'', apiKey p)], params = []\<rparr>,
            \<lparr>headers = [], params = [(''key'', apiKey p)]\<rparr>]
      else [\<lparr>headers = [], params = [(''key'', apiKey p)]\<rparr>,
            \<lparr>headers = [(''x-goog-api-key'', apiKey p)], params = []\<rparr>,
            \<lparr>headers = [(''Authorization'', ''Bearer '' @ apiKey p)], params = []\<rparr>]) \<and>
   requests (geminiRequestWithFallback lc net p hs ps) =
     map (Pair V1beta) (attempts_tried lc net V1beta (mkConfigs p hs ps)) @
     (if version_succeeded lc net V1beta (mkConfigs p hs ps) then []
      else map (Pair V1) (attempts_tried lc net V1 (mkConfigs p hs ps))) \<and>
   requests (geminiRequestWithFallback lc net p hs ps) \<noteq> [] \<and>
   answer (geminiRequestWithFallback lc net p hs ps) =
     outcome_of_request net (last (requests (geminiRequestWithFallback lc net p hs ps))) \<and>
   (\<forall>i r. i < length (mkConfigs p hs ps) \<and>
        (\<forall>j<i. goes_on lc net V1beta (mkConfigs p hs ps ! j)) \<and>
        net V1beta (mkConfigs p hs ps ! i) = Inr r \<longrightarrow>
      geminiRequestWithFallback lc net p hs ps =
        \<lparr>requests = map (Pair V1beta) (take (Suc i) (mkConfigs p hs ps)), answer = Inr r\<rparr>) \<and>
   (\<forall>i e. i < length (mkConfigs p hs ps) \<and>
        (\<forall>j<i. goes_on lc net V1beta (mkConfigs p hs ps ! j)) \<and>
        net V1beta (mkConfigs p hs ps ! i) = Inl e \<and> isRouteError lc e \<longrightarrow>
      requests (geminiRequestWithFallback lc net p hs ps) =
        map (Pair V1beta) (take (Suc i) (mkConfigs p hs ps)) @
        map (Pair V1) (attempts_tried lc net V1 (mkConfigs p hs ps))) \<and>
   ((\<forall>v c. \<exists>e. net v c = Inl e \<and> \<not> isRouteError lc e) \<longrightarrow>
      requests (geminiRequestWithFallback lc net p hs ps) =
        map (Pair V1beta) (mkConfigs p hs ps) @ map (Pair V1) (mkConfigs p hs ps) \<and>
      answer (geminiRequestWithFallback lc net p hs ps) =
        outcome_of_request net (V1, last (mkConfigs p hs ps)))"
proof (intro conjI allI impI)
  show "isRouteError lc err \<longleftrightarrow>
      status_of err = Some 404 \<or> status_of err = Some 405 \<or>
      (status_of err = Some 400 \<and>
       (\<exists>w\<in>{''unknown'', ''not found'', ''invalid path'', ''no route''}.
           str_includes (lc (error_text err)) w))"
    by (rule isRouteError_iff)
  show "mkConfigs p hs ps =
     rev (remdups (rev
       (if compatauth p = Some openai \<or> compatauth p = Some claude
        then [cfgAuth p hs ps, cfgXGoog p hs ps, cfgKey p hs ps]
        else [cfgKey p hs ps, cfgXGoog p hs ps, cfgAuth p hs ps])))"
    by (rule mkConfigs_first_occurrences)
  show "mkConfigs p [] [] =
     (if compatauth p = Some openai \<or> compatauth p = Some claude
      then [\<lparr>headers = [(''Authorization'', ''Bearer '' @ apiKey p)], params = []\<rparr>,
            \<lparr>headers = [(''x-goog-api-key'', apiKey p)], params = []\<rparr>,
            \<lparr>headers = [], params = [(''key'', apiKey p)]\<rparr>]
      else [\<lparr>headers = [], params = [(''key'', apiKey p)]\<rparr>,
            \<lparr>headers = [(''x-goog-api-key'', apiKey p)], params = []\<rparr>,
            \<lparr>headers = [(''Authorization'', ''Bearer '' @ apiKey p)], params = []\<rparr>])"
    by (rule mkConfigs_plain)
  show "requests (geminiRequestWithFallback lc net p hs ps) =
     map (Pair V1beta) (attempts_tried lc net V1beta (mkConfigs p hs ps)) @
     (if version_succeeded lc net V1beta (mkConfigs p hs ps) then []
      else map (Pair V1) (attempts_tried lc net V1 (mkConfigs p hs ps)))"
    by (rule gemini_requests)
  show "requests (geminiRequestWithFallback lc net p hs ps) \<noteq> []"
    by (rule gemini_requests_nonempty)
  show "answer (geminiRequestWithFallback lc net p hs ps) =
     outcome_of_request net (last (requests (geminiRequestWithFallback lc net p hs ps)))"
    by (rule gemini_answer)
next
  assume "distinct (map fst hs) \<and> distinct (map fst ps)"
  then have d: "distinct (map fst hs)" "distinct (map fst ps)" by simp_all
  note c = attempts_carry_request[OF d, of p]
  show "map_of (headers (cfgKey p hs ps)) = map_of hs" by (rule c(1))
  show "map_of (params (cfgKey p hs ps)) = (map_of ps)(''key'' \<mapsto> apiKey p)" by (rule c(2))
  show "map_of (headers (cfgXGoog p hs ps)) = (map_of hs)(''x-goog-api-key'' \<mapsto> apiKey p)"
    by (rule c(3))
  show "map_of (params (cfgXGoog p hs ps)) = map_of ps" by (rule c(4))
  show "map_of (headers (cfgAuth p hs ps)) =
        (map_of hs)(''Authorization'' \<mapsto> ''Bearer '' @ apiKey p)"
    by (rule c(5))
  show "map_of (params (cfgAuth p hs ps)) = map_of ps" by (rule c(6))
next
  assume "map_of hs ''x-goog-api-key'' = None \<and> map_of hs ''Authorization'' = None"
  then show "mkConfigs p hs ps =
        (if compatauth p = Some openai \<or> compatauth p = Some claude
         then [cfgAuth p hs ps, cfgXGoog p hs ps, cfgKey p hs ps]
         else [cfgKey p hs ps, cfgXGoog p hs ps, cfgAuth p hs ps])"
    using mkConfigs_three[of hs p ps] by blast
next
  fix i r
  assume "i < length (mkConfigs p hs ps) \<and>
        (\<forall>j<i. goes_on lc net V1beta (mkConfigs p hs ps ! j)) \<and>
        net V1beta (mkConfigs p hs ps ! i) = Inr r"
  then show "geminiRequestWithFallback lc net p hs ps =
        \<lparr>requests = map (Pair V1beta) (take (Suc i) (mkConfigs p hs ps)), answer = Inr r\<rparr>"
    using gemini_success_stops[of i p hs ps lc net r] by blast
next
  fix i e
  assume "i < length (mkConfigs p hs ps) \<and>
        (\<forall>j<i. goes_on lc net V1beta (mkConfigs p hs ps ! j)) \<and>
        net V1beta (mkConfigs p hs ps ! i) = Inl e \<and> isRouteError lc e"
  then show "requests (geminiRequestWithFallback lc net p hs ps) =
        map (Pair V1beta) (take (Suc i) (mkConfigs p hs ps)) @
        map (Pair V1) (attempts_tried lc net V1 (mkConfigs p hs ps))"
    using gemini_route_error_falls_back[of i p hs ps lc net e] by blast
next
  assume a: "\<forall>v c. \<exists>e. net v c = Inl e \<and> \<not> isRouteError lc e"
  from gemini_all_fail[OF a, of p hs ps]
  show "requests (geminiRequestWithFallback lc net p hs ps) =
        map (Pair V1beta) (mkConfigs p hs ps) @ map (Pair V1) (mkConfigs p hs ps)"
    and "answer (geminiRequestWithFallback lc net p hs ps) =
        outcome_of_request net (V1, last (mkConfigs p hs ps))"
    by simp_all
qed

text \<open>
  At a concrete input: every request is answered 401. All three attempts are made at
  \<^verbatim>\<open>/v1beta\<close>, then all three at \<^verbatim>\<open>/v1\<close>, and the last error is thrown.
\<close>

theorem C6_gemini_fallback_witness:
  "requests (geminiRequestWithFallback toLowerCase (\<lambda>v c. Inl err401 :: js_error + unit) acme [] []) =
     [(V1beta, \<lparr>headers = [], params = [(''key'', ''sk-1'')]\<rparr>),
      (V1beta, \<lparr>headers = [(''x-goog-api-key'', ''sk-1'')], params = []\<rparr>),
      (V1beta, \<lparr>headers = [(''Authorization'', ''Bearer sk-1'')], params = []\<rparr>),
      (V1, \<lparr>headers = [], params = [(''key'', ''sk-1'')]\<rparr>),
      (V1, \<lparr>headers = [(''x-goog-api-key'', ''sk-1'')], params = []\<rparr>),
      (V1, \<lparr>headers = [(''Authorization'', ''Bearer sk-1'')], params = []\<rparr>)] \<and>
   answer (geminiRequestWithFallback toLowerCase (\<lambda>v c. Inl err401 :: js_error + unit) acme [] []) =
     Inl (Some err401)"
proof -
  have a: "\<forall>v c. \<exists>e. (Inl err401 :: js_error + unit) = Inl e \<and> \<not> isRouteError toLowerCase e"
    by (simp add: err401_not_route)
  from C6_gemini_fallback[where lc = toLowerCase and err = err401 and p = acme
      and net = "\<lambda>v c. Inl err401 :: js_error + unit" and hs = "[]" and ps = "[]"] a
  have "requests (geminiRequestWithFallback toLowerCase (\<lambda>v c. Inl err401 :: js_error + unit) acme [] []) =
        map (Pair V1beta) (mkConfigs acme [] []) @ map (Pair V1) (mkConfigs acme [] []) \<and>
      answer (geminiRequestWithFallback toLowerCase (\<lambda>v c. Inl err401 :: js_error + unit) acme [] []) =
        outcome_of_request (\<lambda>v c. Inl err401) (V1, last (mkConfigs acme [] []))"
    by blast
  then show ?thesis
    by (simp add: mkConfigs_plain acme_def outcome_of_request_def)
qed

text \<open>
  The claim as stated fails. When every request is answered 404, the adapter sends two
  requests only, the query-key attempt at each version, and throws: the
  \<^verbatim>\<open>x-goog-api-key\<close> and bearer attempts are tried at no version.
\<close>

theorem C6_route_error_skips_attempts_counterexample:
  "geminiRequestWithFallback toLowerCase (\<lambda>v c. Inl err404 :: js_error + unit) acme [] [] =
     \<lparr>requests = [(V1beta, \<lparr>headers = [], params = [(''key'', ''sk-1'')]\<rparr>),
                  (V1, \<lparr>headers = [], params = [(''key'', ''sk-1'')]\<rparr>)],
      answer = Inl (Some err404)\<rparr> \<and>
   length (mkConfigs acme [] []) = 3 \<and>
   (V1beta, \<lparr>headers = [(''x-goog-api-key'', ''sk-1'')], params = []\<rparr>) \<notin>
     set (requests (geminiRequestWithFallback toLowerCase (\<lambda>v c. Inl err404 :: js_error + unit) acme [] []))"
  by (simp add: geminiRequestWithFallback_def mkConfigs_plain err404_route acme_def Let_def)
subsection \<open>The debounced persistence\<close>

lemma burst_from_rest:
  assumes "writeTimer s = None \<or> (\<exists>h due. writeTimer s = Some h \<and> armed s = [(h, due)])"
    and "writeTimer s = None \<longrightarrow> armed s = []"
    and "burst \<noteq> []"
  shows "\<exists>s'. run (map (\<lambda>(now, v). Mutate now v) burst) s = Some s' \<and>
              mem s' = snd (last burst) \<and>
              writeTimer s' = Some (next_handle s + length burst - 1) \<and>
              armed s' = [(next_handle s + length burst - 1, fst (last burst) + 300)] \<and>
              writing s' = writing s \<and> disk_writes s' = disk_writes s \<and> disk s' = disk s"
  using assms
proof (induction burst arbitrary: s)
  case Nil
  then show ?case by simp
next
  case (Cons e burst)
  obtain now v where e: "e = (now, v)" by (cases e)
  let ?s1 = "mutate now v s"
  have s1: "writeTimer ?s1 = Some (next_handle s)" "armed ?s1 = [(next_handle s, now + 300)]"
    "mem ?s1 = v" "next_handle ?s1 = next_handle s + 1" "writing ?s1 = writing s"
    "disk_writes ?s1 = disk_writes s" "disk ?s1 = disk s"
    using Cons.prems(1,2)
    by (auto simp: mutate_def writeSoon_def Let_def writeSoonDelay_def)
  show ?case
  proof (cases "burst = []")
    case True
    with s1 show ?thesis by (simp add: e)
  next
    case False
    have "\<exists>s'. run (map (\<lambda>(now, v). Mutate now v) burst) ?s1 = Some s' \<and>
              mem s' = snd (last burst) \<and>
              writeTimer s' = Some (next_handle ?s1 + length burst - 1) \<and>
              armed s' = [(next_handle ?s1 + length burst - 1, fst (last burst) + 300)] \<and>
              writing s' = writing ?s1 \<and> disk_writes s' = disk_writes ?s1 \<and> disk s' = disk ?s1"
      by (rule Cons.IH) (use s1 False in auto)
    with False s1 show ?thesis by (auto simp: e)
  qed
qed

lemma run_append:
  "run (xs @ ys) s = (case run xs s of None \<Rightarrow> None | Some s' \<Rightarrow> run ys s')"
  by (induction xs arbitrary: s) (auto split: option.split)

text \<open>
  From the state at rest the debounce works: a burst of mutations leaves one armed timer,
  due 300 ms after the last mutation, and when it has fired and its write is done there
  has been exactly one disk write and the disk holds the document in memory.
\<close>

lemma debounce_from_rest:
  assumes "burst \<noteq> []"
  shows "\<exists>s'. run (map (\<lambda>(now, v). Mutate now v) burst @
                   [Fire (length burst - 1) (fst (last burst) + 300), Done]) (idle v0) = Some s' \<and>
              disk_writes s' = 1 \<and> disk s' = mem s' \<and> mem s' = snd (last burst) \<and>
              armed s' = [] \<and> writing s' = []"
proof -
  from burst_from_rest[of "idle v0" burst] assms
  obtain s1 where s1: "run (map (\<lambda>(now, v). Mutate now v) burst) (idle v0) = Some s1"
    "mem s1 = snd (last burst)" "writeTimer s1 = Some (length burst - 1)"
    "armed s1 = [(length burst - 1, fst (last burst) + 300)]"
    "writing s1 = []" "disk_writes s1 = 0"
    by (auto simp: idle_def)
  then show ?thesis
    by (simp add: run_append timer_fires_def write_done_def)
qed

text \<open>
  Claim C8 fails on the code, by a slip of the code. The \<^verbatim>\<open>finally\<close> block of the
  timer callback sets \<^verbatim>\<open>_writeTimer\<close> to \<^verbatim>\<open>null\<close> when its write is done, also when
  a mutation has armed a new timer during that write. Evaluated on this course of
  events from the state at rest: a mutation at 0; its timer fires at 300 and the write
  starts; a mutation at 305, during the write, arms timer 1; the write is done and the
  handle of timer 1 is forgotten; a mutation at 400, 95 ms after the previous one, finds
  no handle, cancels nothing and arms timer 2. Both timers are armed then, both fire,
  and the burst of the two mutations at 305 and 400 is written to disk twice.
\<close>

theorem C8_burst_during_write_is_written_twice:
  "run [Mutate 0 (1::nat), Fire 0 300, Mutate 305 2, Done, Mutate 400 3] (idle 0) =
     Some \<lparr>mem = 3, disk = 1, writeTimer = Some 2, armed = [(1, 605), (2, 700)],
           writing = [], disk_writes = 1, next_handle = 3\<rparr> \<and>
   run [Mutate 0 (1::nat), Fire 0 300, Mutate 305 2, Done, Mutate 400 3,
        Fire 1 605, Done, Fire 2 700, Done] (idle 0) =
     Some \<lparr>mem = 3, disk = 3, writeTimer = None, armed = [], writing = [],
           disk_writes = 3, next_handle = 3\<rparr>"
  by (simp add: idle_def mutate_def writeSoon_def timer_fires_def write_done_def
      writeSoonDelay_def Let_def)

end
